theory Spec2Isabelle
  imports Complex_Main
begin

section \<open>Numbers, errors and arrays\<close>

text \<open>
  The program computes on JavaScript numbers. The model reads a number as a real
  number and an arithmetic operation as the exact one: \<open>Math.exp\<close> is \<open>exp\<close>,
  \<open>Math.log\<close> is \<open>ln\<close>, \<open>Math.sqrt\<close> is \<open>sqrt\<close>, \<open>Math.round\<close> is \<open>round\<close>
  (both are \<open>\<lfloor>x + 1/2\<rfloor>\<close>). Rounding to 53 bits is not modelled.

  The program tests one number for the special values: the result of \<open>Math.pow\<close> in
  \<open>Game.opponentsAdjustedGamma\<close>. That result is a \<open>number\<close>: a finite value,
  Infinity or NaN. A double holds no value above \<open>Number.MAX_VALUE\<close> and no positive
  value below \<open>Number.MIN_VALUE\<close>, and a result is rounded to the nearest double: a
  power of at least \<open>MAX_VALUE + 2^970\<close> (half a unit in the last place above the
  largest double, \<open>overflow_at\<close>) overflows to Infinity, and a power of at most
  \<open>MIN_VALUE / 2\<close> (\<open>underflow_at\<close>) underflows to 0. Between the two bounds \<open>Math.pow\<close> is the exact power. The base
  is positive and the exponent is a real number, for which \<open>Math.pow\<close> does not
  return NaN.
\<close>

datatype number = Finite real | Infinity | NaN

fun isFinite :: "number \<Rightarrow> bool" where
  "isFinite (Finite x) = True"
| "isFinite Infinity = False"
| "isFinite NaN = False"

fun isNaN :: "number \<Rightarrow> bool" where
  "isNaN (Finite x) = False"
| "isNaN Infinity = False"
| "isNaN NaN = True"

text \<open>The value of a number that has passed the tests for Infinity and NaN.\<close>

fun value_of :: "number \<Rightarrow> real" where
  "value_of (Finite x) = x"
| "value_of Infinity = 0"
| "value_of NaN = 0"

definition MAX_VALUE :: real where
  "MAX_VALUE = (2 ^ 53 - 1) * 2 ^ 971"

definition MIN_VALUE :: real where
  "MIN_VALUE = 1 / 2 ^ 1074"

definition overflow_at :: real where
  "overflow_at = MAX_VALUE + 2 ^ 970"

definition underflow_at :: real where
  "underflow_at = MIN_VALUE / 2"

definition Math_pow :: "real \<Rightarrow> real \<Rightarrow> number" where
  "Math_pow base ex =
     (let v = base powr ex
      in if overflow_at \<le> v then Infinity
         else if v \<le> underflow_at then Finite 0
         else Finite v)"

text \<open>The two exception classes of the source, and the TypeError of the runtime.\<close>

datatype error = Error string | UnstableRatingException string | TypeError string

fun is_unstable :: "error + 'a \<Rightarrow> bool" where
  "is_unstable (Inl (UnstableRatingException m)) = True"
| "is_unstable other = False"

fun throws :: "error + 'a \<Rightarrow> bool" where
  "throws (Inl e) = True"
| "throws (Inr v) = False"

text \<open>
  \<open>xs[i] = v\<close> on a JavaScript array: inside the array the slot is overwritten, at or
  beyond its end the array grows. \<open>Array(n)\<close> is a list of length \<open>n\<close>; a slot the
  code never assigns holds 0 in the model, and the code never reads such a slot.
\<close>

definition set_at :: "real list \<Rightarrow> nat \<Rightarrow> real \<Rightarrow> real list" where
  "set_at xs i v =
     (if i < length xs then xs[i := v]
      else xs @ replicate (i - length xs) 0 @ [v])"

definition Array :: "nat \<Rightarrow> real list" where
  "Array n = replicate n 0"

text \<open>\<open>xs.map(f)\<close> where \<open>f\<close> may throw: the first exception ends the loop.\<close>

fun map_throwing :: "('a \<Rightarrow> error + 'b) \<Rightarrow> 'a list \<Rightarrow> error + 'b list" where
  "map_throwing f [] = Inr []"
| "map_throwing f (x # xs) =
     (case f x of
        Inl e \<Rightarrow> Inl e
      | Inr y \<Rightarrow> (case map_throwing f xs of Inl e \<Rightarrow> Inl e | Inr ys \<Rightarrow> Inr (y # ys)))"

section \<open>Game (game.ts)\<close>

text \<open>
  Objects are compared by reference in the source (\<open>player === this.whitePlayer\<close>);
  a player is named by a number that stands for its identity. A game refers to the two
  PlayerDay objects attached to it, of which it reads the natural rating \<open>r\<close> only
  (through \<open>gamma\<close> and \<open>elo\<close>): \<open>wpd\<close> and \<open>bpd\<close> hold the rating that the
  attached object has when the game is evaluated, \<open>None\<close> for \<open>null\<close>. The
  \<open>extras\<close> of a game are never read and are left out. A dynamic handicap is a
  function of the game's other fields.
\<close>

type_synonym player_ref = nat

datatype winner = B | W | D

record GameData =
  gday :: real
  whitePlayer :: player_ref
  blackPlayer :: player_ref
  handicap :: real
  winner :: winner
  wpd :: "real option"
  bpd :: "real option"

record Game = GameData +
  handicapProc :: "(GameData \<Rightarrow> real) option"

text \<open>
  The constructor. Its handicap argument is a number or a function; \<open>handicap || 0\<close>
  is the number itself.
\<close>

definition new_Game ::
  "player_ref \<Rightarrow> player_ref \<Rightarrow> winner \<Rightarrow> real \<Rightarrow> real + (GameData \<Rightarrow> real) \<Rightarrow> Game" where
  "new_Game black white win timeStep hc =
     \<lparr>gday = timeStep, whitePlayer = white, blackPlayer = black,
      handicap = (case hc of Inl h \<Rightarrow> h | Inr f \<Rightarrow> 0),
      winner = win, wpd = None, bpd = None,
      handicapProc = (case hc of Inl h \<Rightarrow> None | Inr f \<Rightarrow> Some f)\<rparr>"

text \<open>The getters \<open>gamma\<close> and \<open>elo\<close> of a PlayerDay, on its natural rating.\<close>

definition gamma_of :: "real \<Rightarrow> real" where
  "gamma_of rating = exp rating"

definition elo_of :: "real \<Rightarrow> real" where
  "elo_of rating = (rating * 400) / ln 10"

definition blackAdvantage :: "Game \<Rightarrow> real" where
  "blackAdvantage g =
     (case handicapProc g of
        Some f \<Rightarrow> f (GameData.truncate g)
      | None \<Rightarrow> handicap g)"

text \<open>
  The last lines of \<open>opponentsAdjustedGamma\<close>: the power, the guard on it, and the
  value returned.
\<close>

definition checked_gamma :: "real \<Rightarrow> error + real" where
  "checked_gamma opponentElo =
     (let rval = Math_pow 10 (opponentElo / 400)
      in if rval = Finite 0 \<or> \<not> isFinite rval \<or> isNaN rval
         then Inl (UnstableRatingException ''Bad adjusted gamma'')
         else Inr (value_of rval))"

definition opponentsAdjustedGamma :: "Game \<Rightarrow> player_ref \<Rightarrow> error + real" where
  "opponentsAdjustedGamma g p =
     (if p = whitePlayer g then
        (case bpd g of
           None \<Rightarrow> Inl (Error ''No black player day found for game'')
         | Some rb \<Rightarrow> checked_gamma (elo_of rb + blackAdvantage g))
      else if p = blackPlayer g then
        (case wpd g of
           None \<Rightarrow> Inl (Error ''No white player day found for game'')
         | Some rw \<Rightarrow> checked_gamma (elo_of rw - blackAdvantage g))
      else Inl (Error ''No opponent, since they are not in this game''))"



section \<open>PlayerDay (player-day.ts)\<close>

record GameTerm =
  term_a :: real
  term_b :: real
  term_c :: real
  term_d :: real

text \<open>
  \<open>player\<close> is the identity of the owning player. The two private fields
  \<open>_wonGameTerms\<close> and \<open>_lostGameTerms\<close> are the caches of the getters
  \<open>wonGameTerms\<close> and \<open>lostGameTerms\<close>; \<open>None\<close> is \<open>null\<close>.
\<close>

record PlayerDay =
  day :: real
  player :: player_ref
  r :: real
  isFirstDay :: bool
  uncertainty :: real
  wonGames :: "Game list"
  lostGames :: "Game list"
  wonGameTerms_cache :: "GameTerm list option"
  lostGameTerms_cache :: "GameTerm list option"

definition new_PlayerDay :: "player_ref \<Rightarrow> real \<Rightarrow> PlayerDay" where
  "new_PlayerDay p dy =
     \<lparr>day = dy, player = p, r = 0, isFirstDay = False, uncertainty = sqrt 5,
      wonGames = [], lostGames = [],
      wonGameTerms_cache = None, lostGameTerms_cache = None\<rparr>"

definition gamma :: "PlayerDay \<Rightarrow> real" where
  "gamma pd = gamma_of (r pd)"

definition set_gamma :: "PlayerDay \<Rightarrow> real \<Rightarrow> PlayerDay" where
  "set_gamma pd v = pd\<lparr>r := ln v\<rparr>"

definition elo :: "PlayerDay \<Rightarrow> real" where
  "elo pd = elo_of (r pd)"

definition set_elo :: "PlayerDay \<Rightarrow> real \<Rightarrow> PlayerDay" where
  "set_elo pd v = pd\<lparr>r := (v * ln 10) / 400\<rparr>"

definition clearGameTermsCache :: "PlayerDay \<Rightarrow> PlayerDay" where
  "clearGameTermsCache pd = pd\<lparr>wonGameTerms_cache := None, lostGameTerms_cache := None\<rparr>"

definition PlayerDay_addGame :: "PlayerDay \<Rightarrow> Game \<Rightarrow> PlayerDay" where
  "PlayerDay_addGame pd g =
     (if (winner g = W \<and> whitePlayer g = player pd) \<or>
         (winner g = B \<and> blackPlayer g = player pd)
      then pd\<lparr>wonGames := wonGames pd @ [g]\<rparr>
      else pd\<lparr>lostGames := lostGames pd @ [g]\<rparr>)"

text \<open>
  A getter that fills a cache changes the PlayerDay: it returns its value, or the
  exception, together with the PlayerDay it leaves behind. The warnings that the
  getters print are not modelled.
\<close>

definition won_term :: "real \<Rightarrow> GameTerm" where
  "won_term otherGamma = \<lparr>term_a = 1, term_b = 0, term_c = 1, term_d = otherGamma\<rparr>"

definition lost_term :: "real \<Rightarrow> GameTerm" where
  "lost_term otherGamma = \<lparr>term_a = 0, term_b = otherGamma, term_c = 1, term_d = otherGamma\<rparr>"

definition wonGameTerms :: "PlayerDay \<Rightarrow> (error + GameTerm list) \<times> PlayerDay" where
  "wonGameTerms pd =
     (case wonGameTerms_cache pd of
        Some ts \<Rightarrow> (Inr ts, pd)
      | None \<Rightarrow>
          (case map_throwing (\<lambda>g. opponentsAdjustedGamma g (player pd)) (wonGames pd) of
             Inl e \<Rightarrow> (Inl e, pd)
           | Inr gs \<Rightarrow>
               (let ts = map won_term gs;
                    ts = (if isFirstDay pd then ts @ [won_term 1] else ts)
                in (Inr ts, pd\<lparr>wonGameTerms_cache := Some ts\<rparr>))))"

definition lostGameTerms :: "PlayerDay \<Rightarrow> (error + GameTerm list) \<times> PlayerDay" where
  "lostGameTerms pd =
     (case lostGameTerms_cache pd of
        Some ts \<Rightarrow> (Inr ts, pd)
      | None \<Rightarrow>
          (case map_throwing (\<lambda>g. opponentsAdjustedGamma g (player pd)) (lostGames pd) of
             Inl e \<Rightarrow> (Inl e, pd)
           | Inr gs \<Rightarrow>
               (let ts = map lost_term gs;
                    ts = (if isFirstDay pd then ts @ [lost_term 1] else ts)
                in (Inr ts, pd\<lparr>lostGameTerms_cache := Some ts\<rparr>))))"

text \<open>The spread \<open>[...this.wonGameTerms, ...this.lostGameTerms]\<close>: two getter calls.\<close>

definition allTerms :: "PlayerDay \<Rightarrow> (error + GameTerm list) \<times> PlayerDay" where
  "allTerms pd =
     (case wonGameTerms pd of
        (Inl e, pd1) \<Rightarrow> (Inl e, pd1)
      | (Inr wts, pd1) \<Rightarrow>
          (case lostGameTerms pd1 of
             (Inl e, pd2) \<Rightarrow> (Inl e, pd2)
           | (Inr lts, pd2) \<Rightarrow> (Inr (wts @ lts), pd2)))"

definition logLikelihoodDerivative :: "PlayerDay \<Rightarrow> (error + real) \<times> PlayerDay" where
  "logLikelihoodDerivative pd =
     (case allTerms pd of
        (Inl e, pd1) \<Rightarrow> (Inl e, pd1)
      | (Inr ts, pd1) \<Rightarrow>
          (let tally = foldl (\<lambda>tally t. tally + term_c t / (term_c t * gamma pd1 + term_d t)) 0 ts
           in (case wonGameTerms pd1 of
                 (Inl e, pd2) \<Rightarrow> (Inl e, pd2)
               | (Inr wts, pd2) \<Rightarrow> (Inr (real (length wts) - gamma pd2 * tally), pd2))))"

definition logLikelihoodSecondDerivative :: "PlayerDay \<Rightarrow> (error + real) \<times> PlayerDay" where
  "logLikelihoodSecondDerivative pd =
     (case allTerms pd of
        (Inl e, pd1) \<Rightarrow> (Inl e, pd1)
      | (Inr ts, pd1) \<Rightarrow>
          (let sum = foldl (\<lambda>sum t. sum + (term_c t * term_d t) / (term_c t * gamma pd1 + term_d t) ^ 2) 0 ts
           in (Inr (- gamma pd1 * sum), pd1)))"

definition updateBy1DNewtonsMethod :: "PlayerDay \<Rightarrow> (error + unit) \<times> PlayerDay" where
  "updateBy1DNewtonsMethod pd =
     (case logLikelihoodDerivative pd of
        (Inl e, pd1) \<Rightarrow> (Inl e, pd1)
      | (Inr dlogp, pd1) \<Rightarrow>
          (case logLikelihoodSecondDerivative pd1 of
             (Inl e, pd2) \<Rightarrow> (Inl e, pd2)
           | (Inr d2logp, pd2) \<Rightarrow>
               (if \<bar>d2logp\<bar> < 1 / 10 ^ 10 then (Inr (), pd2)
                else (let dr = dlogp / d2logp; newR = r pd2 - dr
                      in (Inr (), pd2\<lparr>r := newR\<rparr>)))))"

section \<open>Player (player.ts)\<close>

text \<open>
  Only the two options that the constructor of a player reads. \<open>self\<close> is the
  identity of the player (the value of \<open>this\<close>); the fields \<open>anchorGamma\<close> and
  \<open>id\<close> are never read and are left out.
\<close>

record WHRConfig =
  config_w2 :: "real option"
  config_debug :: "bool option"

record Player =
  self :: player_ref
  name :: string
  days :: "PlayerDay list"
  w2 :: real
  debug :: bool

text \<open>
  \<open>config.w2 || 300.0\<close> takes the default for a missing option and for 0. The
  square root of a negative option is NaN in the source; the constructor is modelled
  for the other options.
\<close>

definition new_Player :: "player_ref \<Rightarrow> string \<Rightarrow> WHRConfig \<Rightarrow> Player" where
  "new_Player ident nm config =
     (let w2Elo = (case config_w2 config of
                     None \<Rightarrow> 300
                   | Some v \<Rightarrow> if v = 0 then 300 else v)
      in \<lparr>self = ident, name = nm, days = [],
          w2 = ((sqrt w2Elo * ln 10) / 400) ^ 2,
          debug = (case config_debug config of None \<Rightarrow> False | Some v \<Rightarrow> v)\<rparr>)"

definition computeSigma2 :: "Player \<Rightarrow> real list" where
  "computeSigma2 p =
     map (\<lambda>i. \<bar>day (days p ! (i + 1)) - day (days p ! i)\<bar> * w2 p)
       [0..<length (days p) - 1]"

subsection \<open>Hessian and gradient\<close>

definition hessian_prior :: "nat \<Rightarrow> real list \<Rightarrow> nat \<Rightarrow> real" where
  "hessian_prior n sigma2 row =
     (let prior = 0;
          prior = (if row < n - 1 then prior + (- 1) / sigma2 ! row else prior);
          prior = (if row > 0 then prior + (- 1) / sigma2 ! (row - 1) else prior)
      in prior)"

text \<open>
  One row of the double loop, given the value that the getter
  \<open>logLikelihoodSecondDerivative\<close> of the row's day returned.
\<close>

definition hessian_row :: "nat \<Rightarrow> real list \<Rightarrow> nat \<Rightarrow> real \<Rightarrow> real list" where
  "hessian_row n sigma2 row d2 =
     map (\<lambda>col.
            if row = col then d2 + hessian_prior n sigma2 row - 1 / 1000
            else if Suc row = col then 1 / sigma2 ! row
            else if row = Suc col then 1 / sigma2 ! col
            else 0)
       [0..<n]"

fun hessian_rows ::
  "PlayerDay list \<Rightarrow> real list \<Rightarrow> nat list \<Rightarrow> real list list \<Rightarrow>
     (error + real list list) \<times> PlayerDay list" where
  "hessian_rows ds sigma2 [] h = (Inr h, ds)"
| "hessian_rows ds sigma2 (row # rows) h =
     (case logLikelihoodSecondDerivative (ds ! row) of
        (Inl e, pd) \<Rightarrow> (Inl e, ds[row := pd])
      | (Inr d2, pd) \<Rightarrow>
          hessian_rows (ds[row := pd]) sigma2 rows
            (h[row := hessian_row (length ds) sigma2 row d2]))"

definition hessian ::
  "PlayerDay list \<Rightarrow> real list \<Rightarrow> (error + real list list) \<times> PlayerDay list" where
  "hessian ds sigma2 =
     (let n = length ds
      in hessian_rows ds sigma2 [0..<n] (replicate n (replicate n 0)))"

definition gradient_prior :: "real list \<Rightarrow> nat \<Rightarrow> real list \<Rightarrow> nat \<Rightarrow> real" where
  "gradient_prior rs n sigma2 idx =
     (let prior = 0;
          prior = (if idx < n - 1
                   then prior + (- (rs ! idx - rs ! (idx + 1))) / sigma2 ! idx else prior);
          prior = (if idx > 0
                   then prior + (- (rs ! idx - rs ! (idx - 1))) / sigma2 ! (idx - 1) else prior)
      in prior)"

fun gradient_loop ::
  "real list \<Rightarrow> PlayerDay list \<Rightarrow> real list \<Rightarrow> nat list \<Rightarrow> real list \<Rightarrow>
     (error + real list) \<times> PlayerDay list" where
  "gradient_loop rs ds sigma2 [] g = (Inr g, ds)"
| "gradient_loop rs ds sigma2 (idx # idxs) g =
     (case logLikelihoodDerivative (ds ! idx) of
        (Inl e, pd) \<Rightarrow> (Inl e, ds[idx := pd])
      | (Inr dlogp, pd) \<Rightarrow>
          gradient_loop rs (ds[idx := pd]) sigma2 idxs
            (g @ [dlogp + gradient_prior rs (length ds) sigma2 idx]))"

definition gradient ::
  "real list \<Rightarrow> PlayerDay list \<Rightarrow> real list \<Rightarrow> (error + real list) \<times> PlayerDay list" where
  "gradient rs ds sigma2 = gradient_loop rs ds sigma2 [0..<length ds] []"

subsection \<open>Tridiagonal LU decomposition and the Newton step\<close>

definition lu_step ::
  "real list list \<Rightarrow> nat \<Rightarrow> nat \<Rightarrow>
     real list \<times> real list \<times> real list \<Rightarrow> real list \<times> real list \<times> real list" where
  "lu_step h n i = (\<lambda>(a, d, b).
     let a = set_at a i (h ! i ! (i - 1) / d ! (i - 1));
         d = set_at d i (h ! i ! i - a ! i * b ! (i - 1));
         b = (if i < n - 1 then set_at b i (h ! i ! (i + 1)) else b)
     in (a, d, b))"

text \<open>
  \<open>h[0][0]\<close> on an empty matrix is a TypeError. For \<open>n = 1\<close> the read \<open>h[0][1]\<close>
  is outside the row and \<open>b[0]\<close> becomes \<open>undefined\<close>, a slot that is never read.
\<close>

definition luDecompositionTridiagonal ::
  "real list list \<Rightarrow> nat \<Rightarrow> error + real list \<times> real list \<times> real list" where
  "luDecompositionTridiagonal h n =
     (if h = [] then Inl (TypeError ''Cannot read properties of undefined'')
      else
        (let a = Array n;
             d = [h ! 0 ! 0];
             b = Array n;
             b = (if n > 0 then set_at b 0 (if 1 < length (h ! 0) then h ! 0 ! 1 else 0) else b)
         in Inr (fold (lu_step h n) [1..<n] (a, d, b))))"

definition forwardSubstitution :: "real list \<Rightarrow> real list \<Rightarrow> nat \<Rightarrow> real list" where
  "forwardSubstitution g a n =
     fold (\<lambda>i y. set_at y i (g ! i - a ! i * y ! (i - 1))) [1..<n] [g ! 0]"

definition backSubstitution ::
  "real list \<Rightarrow> real list \<Rightarrow> real list \<Rightarrow> nat \<Rightarrow> real list" where
  "backSubstitution y d b n =
     fold (\<lambda>i x. set_at x i ((y ! i - b ! i * x ! (i + 1)) / d ! i)) (rev [0..<n - 1])
       (set_at (Array n) (n - 1) (y ! (n - 1) / d ! (n - 1)))"

definition newRatings :: "real list \<Rightarrow> real list \<Rightarrow> real list" where
  "newRatings rs x = map (\<lambda>i. rs ! i - x ! i) [0..<length rs]"

definition commitRatings :: "PlayerDay list \<Rightarrow> real list \<Rightarrow> PlayerDay list" where
  "commitRatings ds newR = map (\<lambda>i. (ds ! i)\<lparr>r := newR ! i\<rparr>) [0..<length ds]"

text \<open>
  The debug output is not modelled. It calls the getters of the days in the order in
  which \<open>hessian\<close> calls them afterwards, so that it changes neither the caches that
  are left nor the exception that is thrown.
\<close>

definition updateByNDimNewton :: "Player \<Rightarrow> (error + unit) \<times> Player" where
  "updateByNDimNewton p =
     (let rs = map r (days p);
          n = length rs;
          sigma2 = computeSigma2 p
      in case hessian (days p) sigma2 of
           (Inl e, ds1) \<Rightarrow> (Inl e, p\<lparr>days := ds1\<rparr>)
         | (Inr h, ds1) \<Rightarrow>
             (case gradient rs ds1 sigma2 of
                (Inl e, ds2) \<Rightarrow> (Inl e, p\<lparr>days := ds2\<rparr>)
              | (Inr g, ds2) \<Rightarrow>
                  (case luDecompositionTridiagonal h n of
                     Inl e \<Rightarrow> (Inl e, p\<lparr>days := ds2\<rparr>)
                   | Inr (a, d, b) \<Rightarrow>
                       (let y = forwardSubstitution g a n;
                            x = backSubstitution y d b n;
                            newR = newRatings rs x
                        in if list_ex (\<lambda>newRi. newRi > 650) newR
                           then (Inl (UnstableRatingException ''Unstable r''), p\<lparr>days := ds2\<rparr>)
                           else (Inr (), p\<lparr>days := commitRatings ds2 newR\<rparr>)))))"

definition runOneNewtonIteration :: "Player \<Rightarrow> (error + unit) \<times> Player" where
  "runOneNewtonIteration p =
     (let p = p\<lparr>days := map clearGameTermsCache (days p)\<rparr>
      in if length (days p) = 1 then
           (case updateBy1DNewtonsMethod (days p ! 0) of
              (res, pd) \<Rightarrow> (res, p\<lparr>days := (days p)[0 := pd]\<rparr>))
         else if length (days p) > 1 then updateByNDimNewton p
         else (Inr (), p))"

subsection \<open>Covariance and uncertainty\<close>

definition reverse_step ::
  "real list list \<Rightarrow> nat \<Rightarrow>
     real list \<times> real list \<times> real list \<Rightarrow> real list \<times> real list \<times> real list" where
  "reverse_step h i = (\<lambda>(ap, dp, bp).
     let ap = set_at ap i (h ! i ! (i + 1) / dp ! (i + 1));
         dp = set_at dp i (h ! i ! i - ap ! i * bp ! (i + 1));
         bp = (if i > 0 then set_at bp i (h ! i ! (i - 1)) else bp)
     in (ap, dp, bp))"

definition reversePass ::
  "real list list \<Rightarrow> nat \<Rightarrow> real list \<times> real list \<times> real list" where
  "reversePass h n =
     (let dp = Array n;
          bp = Array n;
          ap = Array n;
          dp = set_at dp (n - 1) (h ! (n - 1) ! (n - 1));
          bp = (if n > 1 then set_at bp (n - 1) (h ! (n - 1) ! (n - 2)) else bp)
      in fold (reverse_step h) (rev [0..<n - 1]) (ap, dp, bp))"

definition variances ::
  "nat \<Rightarrow> real list \<Rightarrow> real list \<Rightarrow> real list \<Rightarrow> real list \<Rightarrow> real list" where
  "variances n d b dp bp =
     (let v = fold (\<lambda>i v. set_at v i
                      (dp ! (i + 1) / (b ! i * bp ! (i + 1) - d ! i * dp ! (i + 1))))
                [0..<n - 1] (Array n)
      in set_at v (n - 1) (- 1 / d ! (n - 1)))"

definition cov_matrix :: "nat \<Rightarrow> real list \<Rightarrow> real list \<Rightarrow> real list list" where
  "cov_matrix n a v =
     map (\<lambda>row. map (\<lambda>col.
                   if row = col then v ! row
                   else if Suc row = col then - (a ! col) * v ! col
                   else 0) [0..<n]) [0..<n]"

definition covariance :: "Player \<Rightarrow> (error + real list list) \<times> Player" where
  "covariance p =
     (let sigma2 = computeSigma2 p
      in case hessian (days p) sigma2 of
           (Inl e, ds1) \<Rightarrow> (Inl e, p\<lparr>days := ds1\<rparr>)
         | (Inr h, ds1) \<Rightarrow>
             (let n = length (days p)
              in case luDecompositionTridiagonal h n of
                   Inl e \<Rightarrow> (Inl e, p\<lparr>days := ds1\<rparr>)
                 | Inr (a, d, b) \<Rightarrow>
                     (let (ap, dp, bp) = reversePass h n;
                          v = variances n d b dp bp
                      in (Inr (cov_matrix n a v), p\<lparr>days := ds1\<rparr>))))"

definition updateUncertainty :: "Player \<Rightarrow> (error + unit) \<times> Player" where
  "updateUncertainty p =
     (if length (days p) > 0 then
        (case covariance p of
           (Inl e, p1) \<Rightarrow> (Inl e, p1)
         | (Inr c, p1) \<Rightarrow>
             (Inr (), p1\<lparr>days := map (\<lambda>i. (days p1 ! i)\<lparr>uncertainty := sqrt \<bar>c ! i ! i\<bar>\<rparr>)
                                     [0..<length (days p1)]\<rparr>))
      else (Inr (), p))"

subsection \<open>Adding games\<close>

text \<open>
  \<open>addGame\<close> writes to the player and to the game; both are returned. The reference
  stored in \<open>game.wpd\<close> or \<open>game.bpd\<close> is represented by the rating of the day it
  refers to.
\<close>

definition addGame :: "Player \<Rightarrow> Game \<Rightarrow> Player \<times> Game" where
  "addGame p game =
     (let (ds, newPday) =
            (if length (days p) = 0 \<or> day (last (days p)) \<noteq> gday game then
               (let newPday = new_PlayerDay (self p) (gday game);
                    newPday = (if length (days p) = 0
                               then set_gamma (newPday\<lparr>isFirstDay := True\<rparr>) 1
                               else set_gamma newPday (gamma (last (days p))))
                in (days p @ [newPday], newPday))
             else (days p, last (days p)));
          game = (if whitePlayer game = self p
                  then game\<lparr>wpd := Some (r newPday)\<rparr>
                  else game\<lparr>bpd := Some (r newPday)\<rparr>);
          newPday = PlayerDay_addGame newPday game
      in (p\<lparr>days := ds[length ds - 1 := newPday]\<rparr>, game))"

text \<open>A sequence of \<open>addGame\<close> calls on one player.\<close>

definition addGames :: "Player \<Rightarrow> Game list \<Rightarrow> Player" where
  "addGames p games = foldl (\<lambda>p game. fst (addGame p game)) p games"

subsection \<open>Reading ratings\<close>

definition getRatingHistory :: "Player \<Rightarrow> (real \<times> int \<times> int) list" where
  "getRatingHistory p =
     map (\<lambda>pd. (day pd, round (elo pd), round (uncertainty pd * 100))) (days p)"

text \<open>The result \<open>{ elo, uncertainty }\<close> is the pair of the two numbers.\<close>

definition extrapolated :: "Player \<Rightarrow> PlayerDay \<Rightarrow> real \<Rightarrow> real \<times> real" where
  "extrapolated p pd timeDiff =
     (let variance = uncertainty pd * uncertainty pd + timeDiff * w2 p
      in (elo pd, sqrt variance))"

definition interpolateRating :: "Player \<Rightarrow> real \<Rightarrow> real \<times> real" where
  "interpolateRating p timePoint =
     (if length (days p) = 0 then (0, sqrt 5)
      else if length (days p) = 1 then
        extrapolated p (days p ! 0) \<bar>timePoint - day (days p ! 0)\<bar>
      else
        (case List.find
                (\<lambda>i. day (days p ! i) \<le> timePoint \<and> day (days p ! (i + 1)) \<ge> timePoint)
                [0..<length (days p) - 1] of
           None \<Rightarrow>
             (if timePoint < day (days p ! 0)
              then extrapolated p (days p ! 0) (day (days p ! 0) - timePoint)
              else extrapolated p (last (days p)) (timePoint - day (last (days p))))
         | Some t1Index \<Rightarrow>
             (let t1 = days p ! t1Index;
                  t2 = days p ! (t1Index + 1);
                  mu1 = r t1;
                  mu2 = r t2;
                  mu = (mu1 * (day t2 - timePoint) + mu2 * (timePoint - day t1)) /
                       (day t2 - day t1);
                  sigma1Sq = uncertainty t1 * uncertainty t1;
                  sigma2Sq = uncertainty t2 * uncertainty t2;
                  sigma12 = 0;
                  varianceFromProcess =
                    (((day t2 - timePoint) * (timePoint - day t1)) / (day t2 - day t1)) * w2 p;
                  varianceFromUncertainty =
                    ((day t2 - timePoint) ^ 2 * sigma1Sq +
                     2 * (day t2 - timePoint) * (timePoint - day t1) * sigma12 +
                     (timePoint - day t1) ^ 2 * sigma2Sq) / (day t2 - day t1) ^ 2;
                  totalVariance = varianceFromProcess + varianceFromUncertainty;
                  elo = (mu * 400) / ln 10;
                  uncertainty = sqrt (max 0 totalVariance)
              in (elo, uncertainty))))"

definition getRatingAtTime :: "Player \<Rightarrow> real \<Rightarrow> real \<times> real" where
  "getRatingAtTime p timePoint =
     (case List.find (\<lambda>d. day d = timePoint) (days p) of
        Some exactDay \<Rightarrow> (elo exactDay, uncertainty exactDay)
      | None \<Rightarrow> interpolateRating p timePoint)"

section \<open>Auxiliary notions for the proofs\<close>

text \<open>
  The exact powers that \<open>Math.pow\<close> returns as they are: those strictly between
  the underflow and the overflow bound.
\<close>

definition in_range :: "real \<Rightarrow> bool" where
  "in_range v = (underflow_at < v \<and> v < overflow_at)"

text \<open>Exactly the first day of a list is the anchor.\<close>

definition anchored :: "PlayerDay list \<Rightarrow> bool" where
  "anchored ds = (map isFirstDay ds = (if ds = [] then [] else True # replicate (length ds - 1) False))"


text \<open>
  What the getters of a PlayerDay return, apart from the caches they fill: the terms,
  read from the cache when it is filled, and the two derivatives over them.
\<close>

definition won_terms :: "PlayerDay \<Rightarrow> error + GameTerm list" where
  "won_terms pd = fst (wonGameTerms pd)"

definition lost_terms :: "PlayerDay \<Rightarrow> error + GameTerm list" where
  "lost_terms pd = fst (lostGameTerms pd)"

text \<open>The PlayerDay after one of the derivative getters has run.\<close>

definition touched :: "PlayerDay \<Rightarrow> PlayerDay" where
  "touched pd = snd (allTerms pd)"

definition tally_of :: "real \<Rightarrow> GameTerm list \<Rightarrow> real" where
  "tally_of g ts = (\<Sum>t\<leftarrow>ts. term_c t / (term_c t * g + term_d t))"

definition curvature_of :: "real \<Rightarrow> GameTerm list \<Rightarrow> real" where
  "curvature_of g ts = (\<Sum>t\<leftarrow>ts. (term_c t * term_d t) / (term_c t * g + term_d t) ^ 2)"

definition first_derivative :: "PlayerDay \<Rightarrow> error + real" where
  "first_derivative pd = fst (logLikelihoodDerivative pd)"

definition second_derivative :: "PlayerDay \<Rightarrow> error + real" where
  "second_derivative pd = fst (logLikelihoodSecondDerivative pd)"

text \<open>
  The terms that the getters produce have \<open>c = 1\<close> and \<open>d > 0\<close>; a cache is in order
  when the terms it holds are of this kind.
\<close>

definition terms_ok :: "GameTerm list \<Rightarrow> bool" where
  "terms_ok ts = list_all (\<lambda>t. term_c t = 1 \<and> 0 < term_d t) ts"

definition cache_ok :: "PlayerDay \<Rightarrow> bool" where
  "cache_ok pd =
     ((case wonGameTerms_cache pd of None \<Rightarrow> True | Some ts \<Rightarrow> terms_ok ts) \<and>
      (case lostGameTerms_cache pd of None \<Rightarrow> True | Some ts \<Rightarrow> terms_ok ts))"

text \<open>The recurrences that the loops establish.\<close>

definition lu_relation ::
  "real list list \<Rightarrow> nat \<Rightarrow> nat \<Rightarrow> real list \<times> real list \<times> real list \<Rightarrow> bool" where
  "lu_relation h n k = (\<lambda>(a, d, b).
     length a = n \<and> length d = k \<and> length b = n \<and> d ! 0 = h ! 0 ! 0 \<and>
     (\<forall>i. 0 < i \<and> i < k \<longrightarrow>
        a ! i = h ! i ! (i - 1) / d ! (i - 1) \<and> d ! i = h ! i ! i - a ! i * b ! (i - 1)) \<and>
     (\<forall>i. i < k \<and> i + 1 < n \<longrightarrow> b ! i = h ! i ! (i + 1)))"


definition forward_relation :: "real list \<Rightarrow> real list \<Rightarrow> nat \<Rightarrow> real list \<Rightarrow> bool" where
  "forward_relation g a k y =
     (length y = k \<and> y ! 0 = g ! 0 \<and>
      (\<forall>i. 0 < i \<and> i < k \<longrightarrow> y ! i = g ! i - a ! i * y ! (i - 1)))"

definition back_relation ::
  "real list \<Rightarrow> real list \<Rightarrow> real list \<Rightarrow> nat \<Rightarrow> nat \<Rightarrow> real list \<Rightarrow> bool" where
  "back_relation y d b n k x =
     (length x = n \<and> x ! (n - 1) = y ! (n - 1) / d ! (n - 1) \<and>
      (\<forall>i. k \<le> i \<and> i + 1 < n \<longrightarrow> x ! i = (y ! i - b ! i * x ! (i + 1)) / d ! i))"

text \<open>A tridiagonal matrix, as lists of rows.\<close>

definition tridiagonal :: "nat \<Rightarrow> real list list \<Rightarrow> bool" where
  "tridiagonal n h =
     (\<forall>i j. i < n \<and> j < n \<and> i \<noteq> j \<and> Suc i \<noteq> j \<and> i \<noteq> Suc j \<longrightarrow> h ! i ! j = 0)"


text \<open>
  The linear system that \<open>updateByNDimNewton\<close> assembles, with the days as the getters
  leave them, and its solution by the three loops.
\<close>

definition newton_system ::
  "Player \<Rightarrow> (error + real list list \<times> real list) \<times> PlayerDay list" where
  "newton_system p =
     (case hessian (days p) (computeSigma2 p) of
        (Inl e, ds1) \<Rightarrow> (Inl e, ds1)
      | (Inr h, ds1) \<Rightarrow>
          (case gradient (map r (days p)) ds1 (computeSigma2 p) of
             (Inl e, ds2) \<Rightarrow> (Inl e, ds2)
           | (Inr g, ds2) \<Rightarrow> (Inr (h, g), ds2)))"

definition newton_solution :: "real list list \<Rightarrow> real list \<Rightarrow> nat \<Rightarrow> error + real list" where
  "newton_solution h g n =
     (case luDecompositionTridiagonal h n of
        Inl e \<Rightarrow> Inl e
      | Inr (a, d, b) \<Rightarrow> Inr (backSubstitution (forwardSubstitution g a n) d b n))"

text \<open>The recurrences of the reverse elimination and of the variances.\<close>

definition reverse_relation ::
  "real list list \<Rightarrow> nat \<Rightarrow> nat \<Rightarrow> real list \<times> real list \<times> real list \<Rightarrow> bool" where
  "reverse_relation h n k = (\<lambda>(ap, dp, bp).
     length ap = n \<and> length dp = n \<and> length bp = n \<and>
     dp ! (n - 1) = h ! (n - 1) ! (n - 1) \<and>
     (\<forall>i. k \<le> i \<and> i + 1 < n \<longrightarrow>
        ap ! i = h ! i ! (i + 1) / dp ! (i + 1) \<and> dp ! i = h ! i ! i - ap ! i * bp ! (i + 1)) \<and>
     (\<forall>i. k \<le> i \<and> 0 < i \<and> i < n \<longrightarrow> bp ! i = h ! i ! (i - 1)))"

definition variance_relation ::
  "nat \<Rightarrow> real list \<Rightarrow> real list \<Rightarrow> real list \<Rightarrow> real list \<Rightarrow> real list \<Rightarrow> bool" where
  "variance_relation n d b dp bp v =
     (length v = n \<and>
      (\<forall>i. i + 1 < n \<longrightarrow>
         v ! i = dp ! (i + 1) / (b ! i * bp ! (i + 1) - d ! i * dp ! (i + 1))) \<and>
      v ! (n - 1) = - 1 / d ! (n - 1))"

text \<open>
  A symmetric tridiagonal matrix with positive entries next to the diagonal and a
  diagonal that is negative and strictly dominant.
\<close>

definition dominant :: "nat \<Rightarrow> real list list \<Rightarrow> bool" where
  "dominant n h =
     ((\<forall>i. i + 1 < n \<longrightarrow> 0 < h ! i ! (i + 1) \<and> h ! (i + 1) ! i = h ! i ! (i + 1)) \<and>
      (\<forall>i. i < n \<longrightarrow>
         h ! i ! i + (if i + 1 < n then h ! i ! (i + 1) else 0) +
           (if 0 < i then h ! i ! (i - 1) else 0) < 0))"
section \<open>Example states\<close>

definition example_game :: Game where
  "example_game =
     \<lparr>gday = 1, whitePlayer = 0, blackPlayer = 1, handicap = - 400, winner = W,
      wpd = Some 0, bpd = Some 0, handicapProc = None\<rparr>"

definition example_game_overflow :: Game where
  "example_game_overflow = (new_Game 1 0 W 1 (Inl 200000))\<lparr>wpd := Some 0, bpd := Some 0\<rparr>"

definition example_day :: PlayerDay where
  "example_day = (new_PlayerDay 0 1)\<lparr>isFirstDay := True, uncertainty := 7 / 8\<rparr>"

definition example_player1 :: Player where
  "example_player1 = \<lparr>self = 0, name = ''a'', days = [example_day], w2 = 1, debug = False\<rparr>"

definition example_player2 :: Player where
  "example_player2 =
     \<lparr>self = 0, name = ''a'',
      days = [(new_PlayerDay 0 1)\<lparr>isFirstDay := True, uncertainty := 0\<rparr>,
              (new_PlayerDay 0 2)\<lparr>r := 2, uncertainty := 0\<rparr>],
      w2 = 1, debug = False\<rparr>"

definition example_player_unordered :: Player where
  "example_player_unordered =
     \<lparr>self = 0, name = ''a'',
      days = [(new_PlayerDay 0 1)\<lparr>isFirstDay := True\<rparr>,
              (new_PlayerDay 0 4)\<lparr>r := 3\<rparr>,
              new_PlayerDay 0 2,
              new_PlayerDay 0 3],
      w2 = 1, debug = False\<rparr>"

definition example_played_game :: Game where
  "example_played_game = (new_Game 1 0 W 1 (Inl 0))\<lparr>wpd := Some 0, bpd := Some 0\<rparr>"

definition example_player_won :: Player where
  "example_player_won =
     \<lparr>self = 0, name = ''a'',
      days = [(new_PlayerDay 0 1)\<lparr>isFirstDay := True, wonGames := [example_played_game]\<rparr>],
      w2 = 1, debug = False\<rparr>"

definition example_player_idle :: Player where
  "example_player_idle =
     \<lparr>self = 0, name = ''a'', days = [(new_PlayerDay 0 1)\<lparr>r := 5\<rparr>], w2 = 1, debug = False\<rparr>"

definition example_player_diverged :: Player where
  "example_player_diverged =
     \<lparr>self = 0, name = ''a'',
      days = [(new_PlayerDay 0 1)\<lparr>r := 700\<rparr>, (new_PlayerDay 0 2)\<lparr>r := 700\<rparr>],
      w2 = 1, debug = False\<rparr>"

definition example_player_overflow :: Player where
  "example_player_overflow =
     \<lparr>self = 0, name = ''a'',
      days = [(new_PlayerDay 0 1)\<lparr>isFirstDay := True, wonGames := [example_game_overflow]\<rparr>,
              (new_PlayerDay 0 2)\<lparr>lostGames := [example_played_game]\<rparr>],
      w2 = 1, debug = False\<rparr>"

section \<open>Properties of Game\<close>

lemma overflow_bound: "(10::real) ^ 300 < overflow_at"
  by (simp add: overflow_at_def MAX_VALUE_def)

lemma underflow_bound: "underflow_at < 1 / (10::real) ^ 300"
  by (simp add: underflow_at_def MIN_VALUE_def field_simps)

lemma underflow_at_pos: "0 < underflow_at"
  by (simp add: underflow_at_def MIN_VALUE_def)

lemma overflow_at_le: "overflow_at \<le> (10::real) ^ 500"
  by (simp add: overflow_at_def MAX_VALUE_def)

lemma underflow_at_ge: "1 / (10::real) ^ 500 \<le> underflow_at"
  by (simp add: underflow_at_def MIN_VALUE_def field_simps)

lemma underflow_less_overflow: "underflow_at < overflow_at"
proof -
  have "1 / (10::real) ^ 300 \<le> 10 ^ 300" by simp
  with overflow_bound underflow_bound show ?thesis by linarith
qed

lemma in_range_moderate:
  assumes "1 / 10 ^ 300 \<le> v" and "v \<le> 10 ^ 300"
  shows "in_range v"
  using assms overflow_bound underflow_bound unfolding in_range_def by linarith

lemma in_range_pos: "in_range v \<Longrightarrow> 0 < v"
  using underflow_at_pos unfolding in_range_def by linarith

lemma Math_pow_10:
  "Math_pow 10 y =
     (if in_range (10 powr y) then Finite (10 powr y)
      else if overflow_at \<le> 10 powr y then Infinity
      else Finite 0)"
  unfolding Math_pow_def in_range_def Let_def
  using underflow_at_pos by (auto simp: not_le not_less)

lemma checked_gamma_eq:
  "checked_gamma x =
     (if in_range (10 powr (x / 400)) then Inr (10 powr (x / 400))
      else Inl (UnstableRatingException ''Bad adjusted gamma''))"
proof (cases "in_range (10 powr (x / 400))")
  case True
  then have "Math_pow 10 (x / 400) = Finite (10 powr (x / 400))"
    by (simp add: Math_pow_10)
  with True show ?thesis
    by (simp add: checked_gamma_def)
next
  case False
  then have "Math_pow 10 (x / 400) = Infinity \<or> Math_pow 10 (x / 400) = Finite 0"
    by (simp add: Math_pow_10)
  with False show ?thesis
    by (auto simp: checked_gamma_def)
qed

lemma checked_gamma_guard:
  "is_unstable (checked_gamma x) \<longleftrightarrow>
     Math_pow 10 (x / 400) = Finite 0 \<or> Math_pow 10 (x / 400) = Infinity \<or>
     Math_pow 10 (x / 400) = NaN"
  by (cases "Math_pow 10 (x / 400)") (simp_all add: checked_gamma_def)


lemma opponentsAdjustedGamma_in_range:
  assumes "opponentsAdjustedGamma g p = Inr v"
  shows "in_range v"
  using assms
  by (auto simp: opponentsAdjustedGamma_def checked_gamma_eq split: if_splits option.splits)

lemma opponentsAdjustedGamma_pos:
  assumes "opponentsAdjustedGamma g p = Inr v"
  shows "0 < v"
  using opponentsAdjustedGamma_in_range [OF assms] by (rule in_range_pos)


lemma example_game_powers:
  "10 powr ((elo_of 0 + blackAdvantage example_game) / 400) = 1 / 10"
  "10 powr ((elo_of 0 - blackAdvantage example_game) / 400) = 10"
  by (simp_all add: example_game_def blackAdvantage_def elo_of_def powr_minus divide_simps)

lemma in_range_examples: "in_range 1" "in_range 10" "in_range (1 / 10)"
  by (rule in_range_moderate; simp)+

lemma example_game_overflow_powers:
  "10 powr ((elo_of 0 + blackAdvantage example_game_overflow) / 400) = 10 ^ 500"
  "10 powr ((elo_of 0 - blackAdvantage example_game_overflow) / 400) = 1 / 10 ^ 500"
  by (simp_all add: example_game_overflow_def new_Game_def blackAdvantage_def elo_of_def
      powr_minus divide_simps)

lemma not_in_range_examples: "\<not> in_range (10 ^ 500)" "\<not> in_range (1 / 10 ^ 500)"
  using overflow_at_le underflow_at_ge unfolding in_range_def by linarith+



text \<open>
  Claim C6. \<open>opponentsAdjustedGamma(p)\<close> is \<open>10^((opponent's Elo + handicap)/400)\<close>
  when \<open>p\<close> is the white player and \<open>10^((opponent's Elo - handicap)/400)\<close> when
  \<open>p\<close> is the black player, where the handicap is the fixed one or the value of the
  dynamic one; it throws an Error when the opposing player-day is not attached, or when
  \<open>p\<close> is neither player; it throws UnstableRatingException when the computed value is
  zero, infinite or NaN, which is when the power is at or below the underflow bound or at
  or above the overflow bound; every value it returns is strictly positive and finite.
\<close>

theorem opponentsAdjustedGamma_result:
  "(p = whitePlayer g \<longrightarrow>
      opponentsAdjustedGamma g p =
        (case bpd g of
           None \<Rightarrow> Inl (Error ''No black player day found for game'')
         | Some rb \<Rightarrow>
             if underflow_at < 10 powr ((elo_of rb + blackAdvantage g) / 400) \<and>
                10 powr ((elo_of rb + blackAdvantage g) / 400) < overflow_at
             then Inr (10 powr ((elo_of rb + blackAdvantage g) / 400))
             else Inl (UnstableRatingException ''Bad adjusted gamma''))) \<and>
   (p \<noteq> whitePlayer g \<longrightarrow> p = blackPlayer g \<longrightarrow>
      opponentsAdjustedGamma g p =
        (case wpd g of
           None \<Rightarrow> Inl (Error ''No white player day found for game'')
         | Some rw \<Rightarrow>
             if underflow_at < 10 powr ((elo_of rw - blackAdvantage g) / 400) \<and>
                10 powr ((elo_of rw - blackAdvantage g) / 400) < overflow_at
             then Inr (10 powr ((elo_of rw - blackAdvantage g) / 400))
             else Inl (UnstableRatingException ''Bad adjusted gamma''))) \<and>
   (p \<noteq> whitePlayer g \<longrightarrow> p \<noteq> blackPlayer g \<longrightarrow>
      opponentsAdjustedGamma g p = Inl (Error ''No opponent, since they are not in this game'')) \<and>
   (handicapProc g = None \<longrightarrow> blackAdvantage g = handicap g) \<and>
   (\<forall>f. handicapProc g = Some f \<longrightarrow> blackAdvantage g = f (GameData.truncate g)) \<and>
   (\<forall>rb. p = whitePlayer g \<and> bpd g = Some rb \<longrightarrow>
      (is_unstable (opponentsAdjustedGamma g p) \<longleftrightarrow>
         Math_pow 10 ((elo_of rb + blackAdvantage g) / 400) = Finite 0 \<or>
         Math_pow 10 ((elo_of rb + blackAdvantage g) / 400) = Infinity \<or>
         Math_pow 10 ((elo_of rb + blackAdvantage g) / 400) = NaN)) \<and>
   (\<forall>rw. p \<noteq> whitePlayer g \<and> p = blackPlayer g \<and> wpd g = Some rw \<longrightarrow>
      (is_unstable (opponentsAdjustedGamma g p) \<longleftrightarrow>
         Math_pow 10 ((elo_of rw - blackAdvantage g) / 400) = Finite 0 \<or>
         Math_pow 10 ((elo_of rw - blackAdvantage g) / 400) = Infinity \<or>
         Math_pow 10 ((elo_of rw - blackAdvantage g) / 400) = NaN)) \<and>
   (\<forall>y. (Math_pow 10 y = Infinity \<longleftrightarrow> overflow_at \<le> 10 powr y) \<and>
        (Math_pow 10 y = Finite 0 \<longleftrightarrow> 10 powr y \<le> underflow_at) \<and>
        Math_pow 10 y \<noteq> NaN) \<and>
   (\<forall>v. opponentsAdjustedGamma g p = Inr v \<longrightarrow> 0 < v \<and> v < overflow_at)"
proof -
  have white: "p = whitePlayer g \<longrightarrow>
      opponentsAdjustedGamma g p =
        (case bpd g of
           None \<Rightarrow> Inl (Error ''No black player day found for game'')
         | Some rb \<Rightarrow>
             if underflow_at < 10 powr ((elo_of rb + blackAdvantage g) / 400) \<and>
                10 powr ((elo_of rb + blackAdvantage g) / 400) < overflow_at
             then Inr (10 powr ((elo_of rb + blackAdvantage g) / 400))
             else Inl (UnstableRatingException ''Bad adjusted gamma''))"
    by (simp add: opponentsAdjustedGamma_def checked_gamma_eq in_range_def split: option.splits)
  have black: "p \<noteq> whitePlayer g \<longrightarrow> p = blackPlayer g \<longrightarrow>
      opponentsAdjustedGamma g p =
        (case wpd g of
           None \<Rightarrow> Inl (Error ''No white player day found for game'')
         | Some rw \<Rightarrow>
             if underflow_at < 10 powr ((elo_of rw - blackAdvantage g) / 400) \<and>
                10 powr ((elo_of rw - blackAdvantage g) / 400) < overflow_at
             then Inr (10 powr ((elo_of rw - blackAdvantage g) / 400))
             else Inl (UnstableRatingException ''Bad adjusted gamma''))"
    by (simp add: opponentsAdjustedGamma_def checked_gamma_eq in_range_def split: option.splits)
  have neither: "p \<noteq> whitePlayer g \<longrightarrow> p \<noteq> blackPlayer g \<longrightarrow>
      opponentsAdjustedGamma g p = Inl (Error ''No opponent, since they are not in this game'')"
    by (simp add: opponentsAdjustedGamma_def)
  have fixed: "handicapProc g = None \<longrightarrow> blackAdvantage g = handicap g"
    by (simp add: blackAdvantage_def)
  have dynamic: "\<forall>f. handicapProc g = Some f \<longrightarrow> blackAdvantage g = f (GameData.truncate g)"
    by (simp add: blackAdvantage_def)
  have guard_white: "\<forall>rb. p = whitePlayer g \<and> bpd g = Some rb \<longrightarrow>
      (is_unstable (opponentsAdjustedGamma g p) \<longleftrightarrow>
         Math_pow 10 ((elo_of rb + blackAdvantage g) / 400) = Finite 0 \<or>
         Math_pow 10 ((elo_of rb + blackAdvantage g) / 400) = Infinity \<or>
         Math_pow 10 ((elo_of rb + blackAdvantage g) / 400) = NaN)"
    by (simp add: opponentsAdjustedGamma_def checked_gamma_guard)
  have guard_black: "\<forall>rw. p \<noteq> whitePlayer g \<and> p = blackPlayer g \<and> wpd g = Some rw \<longrightarrow>
      (is_unstable (opponentsAdjustedGamma g p) \<longleftrightarrow>
         Math_pow 10 ((elo_of rw - blackAdvantage g) / 400) = Finite 0 \<or>
         Math_pow 10 ((elo_of rw - blackAdvantage g) / 400) = Infinity \<or>
         Math_pow 10 ((elo_of rw - blackAdvantage g) / 400) = NaN)"
    by (simp add: opponentsAdjustedGamma_def checked_gamma_guard)
  have pow: "\<forall>y. (Math_pow 10 y = Infinity \<longleftrightarrow> overflow_at \<le> 10 powr y) \<and>
        (Math_pow 10 y = Finite 0 \<longleftrightarrow> 10 powr y \<le> underflow_at) \<and>
        Math_pow 10 y \<noteq> NaN"
  proof
    fix y :: real
    have "0 < (10::real) powr y" by simp
    then show "(Math_pow 10 y = Infinity \<longleftrightarrow> overflow_at \<le> 10 powr y) \<and>
        (Math_pow 10 y = Finite 0 \<longleftrightarrow> 10 powr y \<le> underflow_at) \<and>
        Math_pow 10 y \<noteq> NaN"
      unfolding Math_pow_def Let_def using underflow_less_overflow by auto
  qed
  have pos: "\<forall>v. opponentsAdjustedGamma g p = Inr v \<longrightarrow> 0 < v \<and> v < overflow_at"
    using opponentsAdjustedGamma_in_range [of g p] opponentsAdjustedGamma_pos [of g p]
    by (simp add: in_range_def)
  show ?thesis
    by (intro conjI white black neither fixed dynamic guard_white guard_black pow pos)
qed

theorem opponentsAdjustedGamma_result_witness:
  "opponentsAdjustedGamma example_game (whitePlayer example_game) = Inr (1 / 10) \<and>
   opponentsAdjustedGamma example_game (blackPlayer example_game) = Inr 10 \<and>
   blackAdvantage example_game = - 400 \<and>
   opponentsAdjustedGamma example_game_overflow (whitePlayer example_game_overflow) =
     Inl (UnstableRatingException ''Bad adjusted gamma'') \<and>
   opponentsAdjustedGamma example_game_overflow (blackPlayer example_game_overflow) =
     Inl (UnstableRatingException ''Bad adjusted gamma'') \<and>
   opponentsAdjustedGamma example_game 2 =
     Inl (Error ''No opponent, since they are not in this game'')"
proof -
  have a: "bpd example_game = Some 0" "wpd example_game = Some 0"
    "blackPlayer example_game \<noteq> whitePlayer example_game"
    "handicapProc example_game = None" "handicap example_game = - 400"
    "2 \<noteq> whitePlayer example_game" "2 \<noteq> blackPlayer example_game"
    by (simp_all add: example_game_def)
  have b: "bpd example_game_overflow = Some 0" "wpd example_game_overflow = Some 0"
    "blackPlayer example_game_overflow \<noteq> whitePlayer example_game_overflow"
    by (simp_all add: example_game_overflow_def new_Game_def)
  have r: "underflow_at < 1 / 10 \<and> 1 / 10 < overflow_at"
    "underflow_at < 10 \<and> 10 < overflow_at"
    "\<not> (underflow_at < 10 ^ 500 \<and> 10 ^ 500 < overflow_at)"
    "\<not> (underflow_at < 1 / 10 ^ 500 \<and> 1 / 10 ^ 500 < overflow_at)"
    using in_range_examples not_in_range_examples unfolding in_range_def by blast+
  have c1: "opponentsAdjustedGamma example_game (whitePlayer example_game) = Inr (1 / 10)"
    using opponentsAdjustedGamma_result [of "whitePlayer example_game" example_game, THEN conjunct1]
    by (simp only: a r example_game_powers option.case if_True simp_thms)
  have c2: "opponentsAdjustedGamma example_game (blackPlayer example_game) = Inr 10"
    using opponentsAdjustedGamma_result [of "blackPlayer example_game" example_game,
        THEN conjunct2, THEN conjunct1]
    by (simp only: a r example_game_powers option.case if_True simp_thms)
  have c3: "blackAdvantage example_game = - 400"
    using opponentsAdjustedGamma_result [of 2 example_game,
        THEN conjunct2, THEN conjunct2, THEN conjunct2, THEN conjunct1]
    by (simp only: a simp_thms)
  have c4: "opponentsAdjustedGamma example_game_overflow (whitePlayer example_game_overflow) =
     Inl (UnstableRatingException ''Bad adjusted gamma'')"
    using opponentsAdjustedGamma_result
      [of "whitePlayer example_game_overflow" example_game_overflow, THEN conjunct1]
    by (simp only: b r example_game_overflow_powers option.case if_False simp_thms)
  have c5: "opponentsAdjustedGamma example_game_overflow (blackPlayer example_game_overflow) =
     Inl (UnstableRatingException ''Bad adjusted gamma'')"
    using opponentsAdjustedGamma_result
      [of "blackPlayer example_game_overflow" example_game_overflow,
        THEN conjunct2, THEN conjunct1]
    by (simp only: b r example_game_overflow_powers option.case if_False simp_thms)
  have c6: "opponentsAdjustedGamma example_game 2 =
     Inl (Error ''No opponent, since they are not in this game'')"
    using opponentsAdjustedGamma_result [of 2 example_game,
        THEN conjunct2, THEN conjunct2, THEN conjunct1]
    by (simp only: a simp_thms)
  show ?thesis
    by (intro conjI c1 c2 c3 c4 c5 c6)
qed

section \<open>Properties of PlayerDay\<close>

lemma map_throwing_pos:
  assumes "map_throwing (\<lambda>g. opponentsAdjustedGamma g p) gs = Inr vs"
  shows "list_all (\<lambda>v. 0 < v) vs"
  using assms
proof (induction gs arbitrary: vs)
  case Nil
  then show ?case by simp
next
  case (Cons g gs)
  then show ?case
    by (auto split: sum.splits dest: opponentsAdjustedGamma_pos)
qed

lemma is_unstable_Inl:
  "is_unstable (Inl e) \<longleftrightarrow> (\<exists>m. e = UnstableRatingException m)"
  by (cases e) simp_all

lemma wonGameTerms_state:
  "snd (wonGameTerms pd) =
     (case won_terms pd of Inl e \<Rightarrow> pd | Inr ts \<Rightarrow> pd\<lparr>wonGameTerms_cache := Some ts\<rparr>)"
  by (simp add: won_terms_def wonGameTerms_def Let_def split: option.splits sum.splits)

lemma lostGameTerms_state:
  "snd (lostGameTerms pd) =
     (case lost_terms pd of Inl e \<Rightarrow> pd | Inr ts \<Rightarrow> pd\<lparr>lostGameTerms_cache := Some ts\<rparr>)"
  by (simp add: lost_terms_def lostGameTerms_def Let_def split: option.splits sum.splits)

lemma wonGameTerms_eq:
  "wonGameTerms pd =
     (won_terms pd, case won_terms pd of Inl e \<Rightarrow> pd | Inr ts \<Rightarrow> pd\<lparr>wonGameTerms_cache := Some ts\<rparr>)"
  using wonGameTerms_state [of pd] by (simp add: won_terms_def prod_eq_iff)

lemma lostGameTerms_eq:
  "lostGameTerms pd =
     (lost_terms pd, case lost_terms pd of Inl e \<Rightarrow> pd | Inr ts \<Rightarrow> pd\<lparr>lostGameTerms_cache := Some ts\<rparr>)"
  using lostGameTerms_state [of pd] by (simp add: lost_terms_def prod_eq_iff)

lemma won_terms_cached [simp]:
  "won_terms (pd\<lparr>wonGameTerms_cache := Some ts\<rparr>) = Inr ts"
  by (simp add: won_terms_def wonGameTerms_def)

lemma lost_terms_cached [simp]:
  "lost_terms (pd\<lparr>lostGameTerms_cache := Some ts\<rparr>) = Inr ts"
  by (simp add: lost_terms_def lostGameTerms_def)

lemma won_terms_lost_cache [simp]:
  "won_terms (pd\<lparr>lostGameTerms_cache := c\<rparr>) = won_terms pd"
  by (simp add: won_terms_def wonGameTerms_def Let_def split: option.splits sum.splits)

lemma lost_terms_won_cache [simp]:
  "lost_terms (pd\<lparr>wonGameTerms_cache := c\<rparr>) = lost_terms pd"
  by (simp add: lost_terms_def lostGameTerms_def Let_def split: option.splits sum.splits)

lemma allTerms_eq:
  "allTerms pd =
     (case won_terms pd of
        Inl e \<Rightarrow> (Inl e, pd)
      | Inr wts \<Rightarrow>
          (case lost_terms pd of
             Inl e \<Rightarrow> (Inl e, pd\<lparr>wonGameTerms_cache := Some wts\<rparr>)
           | Inr lts \<Rightarrow> (Inr (wts @ lts),
                         pd\<lparr>wonGameTerms_cache := Some wts, lostGameTerms_cache := Some lts\<rparr>)))"
  by (simp add: allTerms_def wonGameTerms_eq lostGameTerms_eq split: sum.splits)

lemma touched_eq:
  "touched pd =
     (case won_terms pd of
        Inl e \<Rightarrow> pd
      | Inr wts \<Rightarrow>
          (case lost_terms pd of
             Inl e \<Rightarrow> pd\<lparr>wonGameTerms_cache := Some wts\<rparr>
           | Inr lts \<Rightarrow> pd\<lparr>wonGameTerms_cache := Some wts, lostGameTerms_cache := Some lts\<rparr>))"
  by (simp add: touched_def allTerms_eq split: sum.splits)

lemma touched_fields [simp]:
  "r (touched pd) = r pd" "day (touched pd) = day pd" "isFirstDay (touched pd) = isFirstDay pd"
  "uncertainty (touched pd) = uncertainty pd" "gamma (touched pd) = gamma pd"
  "player (touched pd) = player pd"
  by (simp_all add: touched_eq gamma_def split: sum.splits)

lemma won_terms_touched [simp]: "won_terms (touched pd) = won_terms pd"
  by (simp add: touched_eq split: sum.splits)

lemma lost_terms_touched [simp]: "lost_terms (touched pd) = lost_terms pd"
  by (simp add: touched_eq split: sum.splits)

lemma touched_touched [simp]: "touched (touched pd) = touched pd"
proof -
  have "touched (touched pd) =
     (case won_terms pd of
        Inl e \<Rightarrow> touched pd
      | Inr wts \<Rightarrow>
          (case lost_terms pd of
             Inl e \<Rightarrow> (touched pd)\<lparr>wonGameTerms_cache := Some wts\<rparr>
           | Inr lts \<Rightarrow> (touched pd)\<lparr>wonGameTerms_cache := Some wts, lostGameTerms_cache := Some lts\<rparr>))"
    using touched_eq [of "touched pd"] by (simp split: sum.splits)
  then show ?thesis
    by (simp add: touched_eq split: sum.splits)
qed

lemma foldl_plus_sum_list:
  "foldl (\<lambda>acc t. acc + f t) a ts = a + (\<Sum>t\<leftarrow>ts. f t)" for a :: real
  by (induction ts arbitrary: a) simp_all

lemma allTerms_touched:
  "allTerms pd = (fst (allTerms pd), touched pd)"
  by (simp add: touched_def)

lemma logLikelihoodSecondDerivative_eq:
  "logLikelihoodSecondDerivative pd = (second_derivative pd, touched pd)"
  by (simp add: second_derivative_def logLikelihoodSecondDerivative_def touched_def
      split: prod.splits sum.splits)

lemma second_derivative_eq:
  "second_derivative pd =
     (case won_terms pd of
        Inl e \<Rightarrow> Inl e
      | Inr wts \<Rightarrow>
          (case lost_terms pd of
             Inl e \<Rightarrow> Inl e
           | Inr lts \<Rightarrow> Inr (- gamma pd * curvature_of (gamma pd) (wts @ lts))))"
  by (simp add: second_derivative_def logLikelihoodSecondDerivative_def allTerms_eq
      curvature_of_def foldl_plus_sum_list gamma_def split: sum.splits)

lemma logLikelihoodDerivative_eq:
  "logLikelihoodDerivative pd = (first_derivative pd, touched pd)"
proof -
  have "snd (logLikelihoodDerivative pd) = touched pd"
    by (simp add: logLikelihoodDerivative_def allTerms_eq touched_eq wonGameTerms_eq Let_def
        split: sum.splits)
  then show ?thesis
    by (simp add: first_derivative_def prod_eq_iff)
qed

lemma first_derivative_eq:
  "first_derivative pd =
     (case won_terms pd of
        Inl e \<Rightarrow> Inl e
      | Inr wts \<Rightarrow>
          (case lost_terms pd of
             Inl e \<Rightarrow> Inl e
           | Inr lts \<Rightarrow> Inr (real (length wts) - gamma pd * tally_of (gamma pd) (wts @ lts))))"
  by (simp add: first_derivative_def logLikelihoodDerivative_def allTerms_eq wonGameTerms_eq
      tally_of_def foldl_plus_sum_list gamma_def Let_def split: sum.splits)

lemma first_derivative_touched [simp]: "first_derivative (touched pd) = first_derivative pd"
  by (simp add: first_derivative_eq split: sum.splits)

lemma second_derivative_touched [simp]: "second_derivative (touched pd) = second_derivative pd"
  by (simp add: second_derivative_eq split: sum.splits)

lemma clearGameTermsCache_fields [simp]:
  "r (clearGameTermsCache pd) = r pd" "day (clearGameTermsCache pd) = day pd"
  "isFirstDay (clearGameTermsCache pd) = isFirstDay pd"
  "uncertainty (clearGameTermsCache pd) = uncertainty pd"
  by (simp_all add: clearGameTermsCache_def)

section \<open>Properties of the rating history\<close>

text \<open>
  Claim C10. For every player and every index \<open>i\<close> into its days,
  \<open>getRatingHistory()[i]\<close> is the triple of \<open>days[i].day\<close>, the Elo rating rounded
  to the nearest integer, and the stored uncertainty multiplied by 100 and rounded to
  the nearest integer.
\<close>

theorem getRatingHistory_entries:
  "length (getRatingHistory p) = length (days p) \<and>
   (\<forall>i<length (days p).
      getRatingHistory p ! i =
        (day (days p ! i), round (elo (days p ! i)), round (uncertainty (days p ! i) * 100)) \<and>
      \<bar>real_of_int (round (elo (days p ! i))) - elo (days p ! i)\<bar> \<le> 1 / 2 \<and>
      \<bar>real_of_int (round (uncertainty (days p ! i) * 100)) - uncertainty (days p ! i) * 100\<bar> \<le> 1 / 2)"
proof -
  have nearest: "\<bar>real_of_int (round x) - x\<bar> \<le> 1 / 2" for x :: real
    using of_int_round_abs_le [of x] by simp
  show ?thesis
    using nearest by (simp add: getRatingHistory_def)
qed

theorem getRatingHistory_entries_witness:
  "0 < length (days example_player1) \<and> getRatingHistory example_player1 ! 0 = (1, 0, 88)"
  using getRatingHistory_entries [of example_player1]
  by (simp add: example_player1_def example_day_def new_PlayerDay_def elo_def elo_of_def round_def)

section \<open>The Newton step of a single day\<close>

lemma updateBy1DNewtonsMethod_eq:
  "updateBy1DNewtonsMethod pd =
     (case first_derivative pd of
        Inl e \<Rightarrow> (Inl e, touched pd)
      | Inr dlogp \<Rightarrow>
          (case second_derivative pd of
             Inl e \<Rightarrow> (Inl e, touched pd)
           | Inr d2logp \<Rightarrow>
               (Inr (), if \<bar>d2logp\<bar> < 1 / 10 ^ 10 then touched pd
                        else (touched pd)\<lparr>r := r pd - dlogp / d2logp\<rparr>)))"
  by (simp add: updateBy1DNewtonsMethod_def logLikelihoodDerivative_eq
      logLikelihoodSecondDerivative_eq Let_def split: sum.splits)

text \<open>
  Claim C9. For a trajectory with exactly one day, one call of
  \<open>runOneNewtonIteration\<close> replaces the rating \<open>r\<close> by
  \<open>r - dlogp / d2logp\<close>, the first and second derivative of the day's log-likelihood
  (recomputed, the caches being cleared first), except that for \<open>|d2logp| < 1e-10\<close>
  the rating is left unchanged; in both cases the call returns without an exception.
\<close>

theorem runOneNewtonIteration_single_day:
  assumes "length (days p) = 1"
    and "fst (logLikelihoodDerivative (clearGameTermsCache (days p ! 0))) = Inr dlogp"
    and "fst (logLikelihoodSecondDerivative (clearGameTermsCache (days p ! 0))) = Inr d2logp"
  shows "fst (runOneNewtonIteration p) = Inr () \<and>
         map r (days (snd (runOneNewtonIteration p))) =
           [if \<bar>d2logp\<bar> < 1 / 10 ^ 10 then r (days p ! 0) else r (days p ! 0) - dlogp / d2logp]"
proof -
  obtain pd where ds: "days p = [pd]"
    using assms(1) by (cases "days p") simp_all
  have "first_derivative (clearGameTermsCache pd) = Inr dlogp"
    "second_derivative (clearGameTermsCache pd) = Inr d2logp"
    using assms(2,3) ds by (simp_all add: first_derivative_def second_derivative_def)
  then show ?thesis
    using ds by (simp add: runOneNewtonIteration_def updateBy1DNewtonsMethod_eq)
qed

lemma example_player_won_derivatives:
  "fst (logLikelihoodDerivative (clearGameTermsCache (days example_player_won ! 0))) = Inr (1 / 2)"
  "fst (logLikelihoodSecondDerivative (clearGameTermsCache (days example_player_won ! 0))) = Inr (- 3 / 4)"
proof -
  let ?pd = "clearGameTermsCache (days example_player_won ! 0)"
  have g: "opponentsAdjustedGamma example_played_game 0 = Inr 1"
    by (simp add: opponentsAdjustedGamma_def example_played_game_def new_Game_def
        checked_gamma_eq in_range_examples elo_of_def blackAdvantage_def)
  have w: "won_terms ?pd = Inr [won_term 1, won_term 1]"
    using g by (simp add: won_terms_def wonGameTerms_def example_player_won_def
        new_PlayerDay_def clearGameTermsCache_def Let_def)
  have l: "lost_terms ?pd = Inr [lost_term 1]"
    by (simp add: lost_terms_def lostGameTerms_def example_player_won_def
        new_PlayerDay_def clearGameTermsCache_def Let_def)
  have gm: "gamma ?pd = 1"
    by (simp add: gamma_def gamma_of_def example_player_won_def new_PlayerDay_def)
  show "fst (logLikelihoodDerivative ?pd) = Inr (1 / 2)"
    using first_derivative_eq [of ?pd] w l gm
    by (simp add: first_derivative_def tally_of_def won_term_def lost_term_def)
  show "fst (logLikelihoodSecondDerivative ?pd) = Inr (- 3 / 4)"
    using second_derivative_eq [of ?pd] w l gm
    by (simp add: second_derivative_def curvature_of_def won_term_def lost_term_def)
qed

lemma example_player_idle_derivatives:
  "fst (logLikelihoodDerivative (clearGameTermsCache (days example_player_idle ! 0))) = Inr 0"
  "fst (logLikelihoodSecondDerivative (clearGameTermsCache (days example_player_idle ! 0))) = Inr 0"
proof -
  let ?pd = "clearGameTermsCache (days example_player_idle ! 0)"
  have w: "won_terms ?pd = Inr []"
    by (simp add: won_terms_def wonGameTerms_def example_player_idle_def
        new_PlayerDay_def clearGameTermsCache_def Let_def)
  have l: "lost_terms ?pd = Inr []"
    by (simp add: lost_terms_def lostGameTerms_def example_player_idle_def
        new_PlayerDay_def clearGameTermsCache_def Let_def)
  show "fst (logLikelihoodDerivative ?pd) = Inr 0"
    using first_derivative_eq [of ?pd] w l
    by (simp add: first_derivative_def tally_of_def)
  show "fst (logLikelihoodSecondDerivative ?pd) = Inr 0"
    using second_derivative_eq [of ?pd] w l
    by (simp add: second_derivative_def curvature_of_def)
qed

theorem runOneNewtonIteration_single_day_witness:
  "length (days example_player_won) = 1 \<and>
   fst (runOneNewtonIteration example_player_won) = Inr () \<and>
   map r (days (snd (runOneNewtonIteration example_player_won))) = [2 / 3] \<and>
   length (days example_player_idle) = 1 \<and>
   fst (runOneNewtonIteration example_player_idle) = Inr () \<and>
   map r (days (snd (runOneNewtonIteration example_player_idle))) = [5]"
proof -
  have n: "length (days example_player_won) = 1" "length (days example_player_idle) = 1"
    by (simp_all add: example_player_won_def example_player_idle_def)
  have r0: "r (days example_player_won ! 0) = 0" "r (days example_player_idle ! 0) = 5"
    by (simp_all add: example_player_won_def example_player_idle_def new_PlayerDay_def)
  show ?thesis
    using n r0
      runOneNewtonIteration_single_day [OF n(1) example_player_won_derivatives]
      runOneNewtonIteration_single_day [OF n(2) example_player_idle_derivatives]
    by simp
qed

section \<open>Properties of addGame\<close>

lemma PlayerDay_addGame_fields [simp]:
  "day (PlayerDay_addGame pd g) = day pd"
  "isFirstDay (PlayerDay_addGame pd g) = isFirstDay pd"
  by (simp_all add: PlayerDay_addGame_def)

lemma map_update_last:
  assumes "xs \<noteq> []" and "f v = f (last xs)"
  shows "map f (xs[length xs - Suc 0 := v]) = map f xs"
proof -
  have "map f (xs[length xs - Suc 0 := v]) = (map f xs)[length xs - Suc 0 := f (last xs)]"
    using assms by (simp add: map_update)
  also have "\<dots> = map f xs"
    using assms by (simp add: last_conv_nth list_update_same_conv)
  finally show ?thesis .
qed

lemma days_addGame_day:
  "map day (days (fst (addGame p g))) =
     (if days p = [] \<or> day (last (days p)) \<noteq> gday g
      then map day (days p) @ [gday g] else map day (days p))"
  by (auto simp: addGame_def Let_def new_PlayerDay_def set_gamma_def map_update_last)

lemma days_addGame_isFirstDay:
  "map isFirstDay (days (fst (addGame p g))) =
     (if days p = [] then [True]
      else if day (last (days p)) \<noteq> gday g then map isFirstDay (days p) @ [False]
      else map isFirstDay (days p))"
  by (auto simp: addGame_def Let_def new_PlayerDay_def set_gamma_def map_update_last)

lemma addGames_snoc: "addGames p (gs @ [g]) = fst (addGame (addGames p gs) g)"
  by (simp add: addGames_def)

lemma addGames_Nil: "addGames p [] = p"
  by (simp add: addGames_def)

lemma anchored_addGame:
  assumes "anchored (days p)"
  shows "anchored (days (fst (addGame p g)))"
proof -
  have len: "length (days (fst (addGame p g))) =
      (if days p = [] \<or> day (last (days p)) \<noteq> gday g then Suc (length (days p)) else length (days p))"
    using arg_cong [OF days_addGame_day [of p g], of length] by (simp split: if_splits)
  have ne: "days (fst (addGame p g)) \<noteq> []"
    using len by (auto split: if_splits)
  show ?thesis
  proof (cases "days p = []")
    case True
    then show ?thesis
      using len ne by (simp add: anchored_def days_addGame_isFirstDay)
  next
    case False
    then have "0 < length (days p)" by simp
    then have "replicate (length (days p) - 1) False @ [False] = replicate (length (days p)) False"
      by (cases "length (days p)") (simp_all add: replicate_append_same)
    with False assms show ?thesis
      using len ne by (simp add: anchored_def days_addGame_isFirstDay)
  qed
qed

lemma distinct_adj_addGame:
  assumes "distinct_adj (map day (days p))"
  shows "distinct_adj (map day (days (fst (addGame p g))))"
  using assms
  by (auto simp: days_addGame_day distinct_adj_append_iff last_map)

lemma strict_sorted_last:
  assumes "sorted_wrt (<) (xs :: real list)" and "y \<in> set xs"
  shows "y \<le> last xs"
  using assms
proof (induction xs)
  case Nil
  then show ?case by simp
next
  case (Cons x xs)
  show ?case
  proof (cases "xs = []")
    case True
    with Cons.prems show ?thesis by simp
  next
    case False
    have "y \<le> last xs"
    proof (cases "y = x")
      case True
      have "last xs \<in> set xs" using False by simp
      with Cons.prems(1) True show ?thesis by auto
    next
      case False
      with Cons show ?thesis by simp
    qed
    with False show ?thesis by simp
  qed
qed

lemma sorted_addGame:
  assumes "sorted_wrt (<) (map day (days p))"
    and "days p \<noteq> [] \<longrightarrow> day (last (days p)) \<le> gday g"
  shows "sorted_wrt (<) (map day (days (fst (addGame p g))))"
proof (cases "days p = [] \<or> day (last (days p)) \<noteq> gday g")
  case True
  have "y < gday g" if "y \<in> set (map day (days p))" for y
  proof -
    from that have ne: "days p \<noteq> []" by auto
    with True assms(2) have "day (last (days p)) < gday g" by simp
    moreover have "y \<le> last (map day (days p))"
      using strict_sorted_last [OF assms(1) that] .
    ultimately show ?thesis using ne by (simp add: last_map)
  qed
  with True assms(1) show ?thesis
    by (simp add: days_addGame_day sorted_wrt_append)
next
  case False
  with assms(1) show ?thesis by (simp add: days_addGame_day)
qed

lemma last_day_addGame:
  "day (last (days (fst (addGame p g)))) = gday g"
proof -
  have "last (map day (days (fst (addGame p g)))) = gday g"
    by (auto simp: days_addGame_day last_map)
  moreover have "days (fst (addGame p g)) \<noteq> []"
    using arg_cong [OF days_addGame_day [of p g], of length] by (auto split: if_splits)
  ultimately show ?thesis by (simp add: last_map)
qed

lemma addGames_invariants:
  assumes "anchored (days p)" and "distinct_adj (map day (days p))"
  shows "anchored (days (addGames p gs)) \<and> distinct_adj (map day (days (addGames p gs)))"
proof (induction gs rule: rev_induct)
  case Nil
  with assms show ?case by (simp add: addGames_Nil)
next
  case (snoc g gs)
  then show ?case
    by (simp add: addGames_snoc anchored_addGame distinct_adj_addGame)
qed

lemma addGames_sorted:
  assumes "sorted_wrt (<) (map day (days p))" and "sorted (map gday gs)"
    and "days p \<noteq> [] \<longrightarrow> (\<forall>g\<in>set gs. day (last (days p)) \<le> gday g)"
  shows "sorted_wrt (<) (map day (days (addGames p gs)))"
  using assms(2,3)
proof (induction gs rule: rev_induct)
  case Nil
  with assms(1) show ?case by (simp add: addGames_Nil)
next
  case (snoc g gs)
  have srt: "sorted (map gday gs)" and le: "\<forall>x\<in>set gs. gday x \<le> gday g"
    using snoc.prems(1) by (auto simp: sorted_append)
  have IH: "sorted_wrt (<) (map day (days (addGames p gs)))"
    using snoc.IH srt snoc.prems(2) by simp
  have "day (last (days (addGames p gs))) \<le> gday g" if "days (addGames p gs) \<noteq> []"
  proof (cases gs rule: rev_cases)
    case Nil
    with that snoc.prems(2) show ?thesis by (simp add: addGames_Nil)
  next
    case (snoc gs' g')
    then show ?thesis using le by (simp add: addGames_snoc last_day_addGame)
  qed
  then show ?case
    using IH by (simp add: addGames_snoc sorted_addGame)
qed

lemma anchored_nth:
  assumes "anchored ds" and "i < length ds"
  shows "isFirstDay (ds ! i) \<longleftrightarrow> i = 0"
proof -
  have "isFirstDay (ds ! i) = map isFirstDay ds ! i"
    using assms(2) by simp
  also have "\<dots> = (True # replicate (length ds - 1) False) ! i"
    using assms by (auto simp: anchored_def)
  also have "\<dots> \<longleftrightarrow> i = 0"
    using assms(2) by (cases i) simp_all
  finally show ?thesis .
qed

text \<open>
  Claim C4, as amended. \<open>addGame\<close> compares the day of a game with the last day of the
  player only and appends. For every sequence of \<open>addGame\<close> calls on a new player, in
  any order of days: no two adjacent days of the list are equal, and exactly the first
  element of the list has \<open>isFirstDay = true\<close>. When the games arrive in
  non-decreasing order of day, the list is strictly increasing and unique by day.
\<close>

theorem addGames_days:
  "distinct_adj (map day (days (addGames (new_Player ident nm config) games))) \<and>
   (\<forall>i<length (days (addGames (new_Player ident nm config) games)).
      isFirstDay (days (addGames (new_Player ident nm config) games) ! i) \<longleftrightarrow> i = 0) \<and>
   (sorted (map gday games) \<longrightarrow>
      sorted_wrt (<) (map day (days (addGames (new_Player ident nm config) games))) \<and>
      distinct (map day (days (addGames (new_Player ident nm config) games))))"
proof -
  let ?p = "new_Player ident nm config"
  have empty: "days ?p = []" by (simp add: new_Player_def Let_def)
  then have "anchored (days ?p)" and "distinct_adj (map day (days ?p))"
    by (simp_all add: anchored_def)
  then have inv: "anchored (days (addGames ?p games))"
    "distinct_adj (map day (days (addGames ?p games)))"
    using addGames_invariants by blast+
  have "sorted_wrt (<) (map day (days (addGames ?p games)))" if "sorted (map gday games)"
    using addGames_sorted [of ?p games] that empty by simp
  moreover have "distinct xs" if "sorted_wrt (<) xs" for xs :: "real list"
    using that strict_sorted_iff by blast
  ultimately show ?thesis
    using inv anchored_nth by blast
qed

lemma days_addGame_nonempty: "days (fst (addGame p g)) \<noteq> []"
  using arg_cong [OF days_addGame_day [of p g], of length] by (auto split: if_splits)

theorem addGames_days_witness:
  "sorted (map gday [new_Game 1 0 W 1 (Inl 0), new_Game 1 0 B 1 (Inl 0), new_Game 1 0 W 3 (Inl 0)]) \<and>
   map day (days (addGames (new_Player 0 ''a'' \<lparr>config_w2 = None, config_debug = None\<rparr>)
     [new_Game 1 0 W 1 (Inl 0), new_Game 1 0 B 1 (Inl 0), new_Game 1 0 W 3 (Inl 0)])) = [1, 3] \<and>
   sorted_wrt (<) (map day (days (addGames (new_Player 0 ''a'' \<lparr>config_w2 = None, config_debug = None\<rparr>)
     [new_Game 1 0 W 1 (Inl 0), new_Game 1 0 B 1 (Inl 0), new_Game 1 0 W 3 (Inl 0)])))"
proof -
  let ?p = "new_Player 0 ''a'' \<lparr>config_w2 = None, config_debug = None\<rparr>"
  let ?gs = "[new_Game 1 0 W 1 (Inl 0), new_Game 1 0 B 1 (Inl 0), new_Game 1 0 W 3 (Inl 0)]"
  have "days ?p = []"
    by (simp add: new_Player_def)
  then have d: "map day (days (addGames ?p ?gs)) = [1, 3]"
    by (simp add: addGames_def days_addGame_day last_day_addGame days_addGame_nonempty new_Game_def)
  have s: "sorted (map gday ?gs)"
    by (simp add: new_Game_def)
  have "sorted (map gday ?gs) \<longrightarrow>
      sorted_wrt (<) (map day (days (addGames ?p ?gs))) \<and> distinct (map day (days (addGames ?p ?gs)))"
    by (rule addGames_days [THEN conjunct2, THEN conjunct2])
  with s have "sorted_wrt (<) (map day (days (addGames ?p ?gs)))"
    by (rule_tac conjunct1) (erule mp)
  with d s show ?thesis by (intro conjI)
qed

text \<open>
  Claim C4 as stated fails: two games added in decreasing order of day leave a list that
  is not increasing, and a day that returns after another one is entered twice.
\<close>

theorem addGames_unordered_counterexample:
  "\<not> sorted_wrt (<) (map day (days (addGames (new_Player 0 ''a'' \<lparr>config_w2 = None, config_debug = None\<rparr>)
       [new_Game 1 0 W 2 (Inl 0), new_Game 1 0 W 1 (Inl 0)]))) \<and>
   \<not> distinct (map day (days (addGames (new_Player 0 ''a'' \<lparr>config_w2 = None, config_debug = None\<rparr>)
       [new_Game 1 0 W 1 (Inl 0), new_Game 1 0 W 2 (Inl 0), new_Game 1 0 W 1 (Inl 0)])))"
proof -
  have e: "days (new_Player 0 ''a'' \<lparr>config_w2 = None, config_debug = None\<rparr>) = []"
    by (simp add: new_Player_def)
  have "map day (days (addGames (new_Player 0 ''a'' \<lparr>config_w2 = None, config_debug = None\<rparr>)
       [new_Game 1 0 W 2 (Inl 0), new_Game 1 0 W 1 (Inl 0)])) = [2, 1]"
    using e by (simp add: addGames_def days_addGame_day last_day_addGame days_addGame_nonempty new_Game_def)
  moreover have "map day (days (addGames (new_Player 0 ''a'' \<lparr>config_w2 = None, config_debug = None\<rparr>)
       [new_Game 1 0 W 1 (Inl 0), new_Game 1 0 W 2 (Inl 0), new_Game 1 0 W 1 (Inl 0)])) = [1, 2, 1]"
    using e by (simp add: addGames_def days_addGame_day last_day_addGame days_addGame_nonempty new_Game_def)
  ultimately show ?thesis by simp
qed

section \<open>Properties of the interpolation\<close>

lemma strict_sorted_nth_less:
  assumes "sorted_wrt (<) (xs :: real list)" and "i < j" and "j < length xs"
  shows "xs ! i < xs ! j"
  using assms by (simp add: sorted_wrt_iff_nth_less)

lemma strict_sorted_nth_le:
  assumes "sorted_wrt (<) (xs :: real list)" and "i \<le> j" and "j < length xs"
  shows "xs ! i \<le> xs ! j"
proof (cases "i = j")
  case True
  then show ?thesis by simp
next
  case False
  with assms strict_sorted_nth_less [of xs i j] show ?thesis by simp
qed

lemma find_bracket:
  assumes srt: "sorted_wrt (<) (map day ds)" and i: "Suc i < length ds"
    and lo: "day (ds ! i) < t" and hi: "t < day (ds ! Suc i)"
  shows "List.find (\<lambda>k. day (ds ! k) \<le> t \<and> day (ds ! (k + 1)) \<ge> t) [0..<length ds - 1] = Some i"
proof -
  let ?P = "\<lambda>k. day (ds ! k) \<le> t \<and> day (ds ! (k + 1)) \<ge> t"
  have len: "i < length [0..<length ds - 1]" using i by simp
  have here: "?P ([0..<length ds - 1] ! i)"
    using i lo hi by simp
  have before: "\<not> ?P ([0..<length ds - 1] ! j)" if "j < i" for j
  proof -
    have "map day ds ! (j + 1) \<le> map day ds ! i"
      using strict_sorted_nth_le [OF srt, of "j + 1" i] that i by simp
    then have "day (ds ! (j + 1)) \<le> day (ds ! i)"
      using that i by simp
    with lo have "day (ds ! (j + 1)) < t" by simp
    then show ?thesis using that i by simp
  qed
  have at: "i = [0..<length ds - 1] ! i" using i by simp
  have "\<exists>k<length [0..<length ds - 1]. ?P ([0..<length ds - 1] ! k) \<and>
          i = [0..<length ds - 1] ! k \<and> (\<forall>j<k. \<not> ?P ([0..<length ds - 1] ! j))"
  proof (intro exI [of _ i] conjI allI impI)
    show "i < length [0..<length ds - 1]" by (rule len)
    show "day (ds ! ([0..<length ds - 1] ! i)) \<le> t" using here by (rule conjunct1)
    show "t \<le> day (ds ! ([0..<length ds - 1] ! i + 1))" using here by (rule conjunct2)
    show "i = [0..<length ds - 1] ! i" by (rule at)
    show "\<not> ?P ([0..<length ds - 1] ! j)" if "j < i" for j using before [OF that] .
  qed
  then show ?thesis
    by (simp only: find_Some_iff)
qed

lemma not_known_day:
  assumes srt: "sorted_wrt (<) (map day ds)" and i: "Suc i < length ds"
    and lo: "day (ds ! i) < t" and hi: "t < day (ds ! Suc i)"
  shows "List.find (\<lambda>d. day d = t) ds = None"
proof -
  have "day (ds ! k) \<noteq> t" if k: "k < length ds" for k
  proof (cases "k \<le> i")
    case True
    have "map day ds ! k \<le> map day ds ! i"
      using strict_sorted_nth_le [OF srt True] i by simp
    with lo k i show ?thesis by simp
  next
    case False
    then have "Suc i \<le> k" by simp
    then have "map day ds ! Suc i \<le> map day ds ! k"
      using strict_sorted_nth_le [OF srt, of "Suc i" k] k by simp
    with hi k i show ?thesis by simp
  qed
  then show ?thesis
    by (auto simp: find_None_iff in_set_conv_nth)
qed

text \<open>
  Claim C7, as amended. For every player whose days are strictly increasing and every
  query time \<open>t\<close> strictly between two adjacent days \<open>t1 < t < t2\<close> (so that \<open>t\<close> is
  no known day), the interpolated mean is \<open>mu = (r1*(t2-t) + r2*(t-t1))/(t2-t1)\<close> over
  the natural ratings, reported as \<open>mu*400/ln 10\<close>; the reported uncertainty is the
  square root of the variance
  \<open>((t2-t)*(t-t1)/(t2-t1))*w2 + ((t2-t)^2*sigma1^2 + (t-t1)^2*sigma2^2)/(t2-t1)^2\<close>
  (clamped at 0, which changes nothing when \<open>w2\<close> is not negative), the cross-covariance
  being taken as zero; at the midpoint of two days one day apart with both endpoint
  uncertainties zero the variance is \<open>(1/4)*w2\<close>.
\<close>

theorem interpolateRating_between:
  assumes srt: "sorted_wrt (<) (map day (days p))"
    and i: "Suc i < length (days p)"
    and lo: "day (days p ! i) < t" and hi: "t < day (days p ! Suc i)"
  defines "t1 \<equiv> day (days p ! i)" and "t2 \<equiv> day (days p ! Suc i)"
    and "r1 \<equiv> r (days p ! i)" and "r2 \<equiv> r (days p ! Suc i)"
    and "s1 \<equiv> uncertainty (days p ! i)" and "s2 \<equiv> uncertainty (days p ! Suc i)"
  defines "mu \<equiv> (r1 * (t2 - t) + r2 * (t - t1)) / (t2 - t1)"
    and "V \<equiv> ((t2 - t) * (t - t1) / (t2 - t1)) * w2 p +
               ((t2 - t) ^ 2 * s1 ^ 2 + (t - t1) ^ 2 * s2 ^ 2) / (t2 - t1) ^ 2"
  shows "interpolateRating p t = (mu * 400 / ln 10, sqrt (max 0 V)) \<and>
         getRatingAtTime p t = interpolateRating p t \<and>
         (0 \<le> w2 p \<longrightarrow> (snd (interpolateRating p t)) ^ 2 = V) \<and>
         (t2 - t1 = 1 \<and> t - t1 = 1 / 2 \<and> s1 = 0 \<and> s2 = 0 \<longrightarrow> V = (1 / 4) * w2 p)"
proof -
  have len: "length (days p) \<noteq> 0" "length (days p) \<noteq> 1"
    using i by auto
  have f: "List.find (\<lambda>k. day (days p ! k) \<le> t \<and> day (days p ! (k + 1)) \<ge> t)
             [0..<length (days p) - 1] = Some i"
    using find_bracket [OF srt i lo hi] .
  have val: "interpolateRating p t = (mu * 400 / ln 10, sqrt (max 0 V))"
    unfolding interpolateRating_def
    using len f
    by (simp add: Let_def mu_def V_def t1_def t2_def r1_def r2_def s1_def s2_def power2_eq_square)
  have exact: "getRatingAtTime p t = interpolateRating p t"
    using not_known_day [OF srt i lo hi] by (simp add: getRatingAtTime_def)
  have pos: "0 < t2 - t" "0 < t - t1" "0 < t2 - t1"
    using lo hi by (simp_all add: t1_def t2_def)
  have nonneg: "0 \<le> V" if "0 \<le> w2 p"
  proof -
    have "0 \<le> (t2 - t) * (t - t1) / (t2 - t1) * w2 p"
      using pos that by simp
    moreover have "0 \<le> ((t2 - t) ^ 2 * s1 ^ 2 + (t - t1) ^ 2 * s2 ^ 2) / (t2 - t1) ^ 2"
      by simp
    ultimately show ?thesis by (simp add: V_def)
  qed
  have sq: "0 \<le> w2 p \<longrightarrow> (snd (interpolateRating p t)) ^ 2 = V"
    using nonneg by (simp add: val)
  have mid: "t2 - t1 = 1 \<and> t - t1 = 1 / 2 \<and> s1 = 0 \<and> s2 = 0 \<longrightarrow> V = (1 / 4) * w2 p"
  proof
    assume a: "t2 - t1 = 1 \<and> t - t1 = 1 / 2 \<and> s1 = 0 \<and> s2 = 0"
    then have e: "t2 - t = 1 / 2" "t - t1 = 1 / 2" "t2 - t1 = 1" "s1 = 0" "s2 = 0"
      by linarith+
    show "V = (1 / 4) * w2 p"
      unfolding V_def e by simp
  qed
  from val exact sq mid show ?thesis by blast
qed


theorem interpolateRating_between_witness:
  "sorted_wrt (<) (map day (days example_player2)) \<and>
   day (days example_player2 ! 0) < 3 / 2 \<and> 3 / 2 < day (days example_player2 ! Suc 0) \<and>
   interpolateRating example_player2 (3 / 2) = (400 / ln 10, 1 / 2) \<and>
   (snd (interpolateRating example_player2 (3 / 2))) ^ 2 = (1 / 4) * w2 example_player2"
proof -
  have h: "sorted_wrt (<) (map day (days example_player2))"
    "Suc 0 < length (days example_player2)"
    "day (days example_player2 ! 0) < 3 / 2" "3 / 2 < day (days example_player2 ! Suc 0)"
    by (simp_all add: example_player2_def new_PlayerDay_def)
  have "sqrt (1 / 4) = 1 / 2"
    by (simp add: real_sqrt_divide)
  then show ?thesis
    using h interpolateRating_between [OF h]
    by (simp add: example_player2_def new_PlayerDay_def)
qed

text \<open>
  Claim C7 as stated, for every player, fails on a list of days that is not increasing:
  the search takes the first pair of neighbours in the list that encloses \<open>t\<close>. With
  the days 1, 4, 2, 3 and \<open>t = 5/2\<close> the result is interpolated between the days 1 and
  4, not between the days 2 and 3.
\<close>

theorem interpolateRating_unordered_counterexample:
  "Suc 2 < length (days example_player_unordered) \<and>
   day (days example_player_unordered ! 2) < 5 / 2 \<and>
   5 / 2 < day (days example_player_unordered ! Suc 2) \<and>
   List.find (\<lambda>d. day d = 5 / 2) (days example_player_unordered) = None \<and>
   fst (interpolateRating example_player_unordered (5 / 2)) \<noteq>
     (r (days example_player_unordered ! 2) * (day (days example_player_unordered ! Suc 2) - 5 / 2) +
      r (days example_player_unordered ! Suc 2) * (5 / 2 - day (days example_player_unordered ! 2))) /
     (day (days example_player_unordered ! Suc 2) - day (days example_player_unordered ! 2)) * 400 / ln 10"
proof -
  have "[0..<length (days example_player_unordered) - 1] = [0, 1, 2]"
    by (simp add: example_player_unordered_def upt_conv_Cons)
  then have "fst (interpolateRating example_player_unordered (5 / 2)) = 600 / ln 10"
    by (simp add: interpolateRating_def example_player_unordered_def new_PlayerDay_def Let_def)
  then show ?thesis
    by (simp add: example_player_unordered_def new_PlayerDay_def numeral_3_eq_3)
qed

section \<open>Properties of the Hessian and the gradient\<close>

lemma hessian_rows_Cons:
  "hessian_rows ds s (row # rows) h =
     (case second_derivative (ds ! row) of
        Inl e \<Rightarrow> (Inl e, ds[row := touched (ds ! row)])
      | Inr d2 \<Rightarrow>
          hessian_rows (ds[row := touched (ds ! row)]) s rows
            (h[row := hessian_row (length ds) s row d2]))"
  by (simp add: logLikelihoodSecondDerivative_eq split: sum.splits)

lemma gradient_loop_Cons:
  "gradient_loop rs ds s (idx # idxs) g =
     (case first_derivative (ds ! idx) of
        Inl e \<Rightarrow> (Inl e, ds[idx := touched (ds ! idx)])
      | Inr dlogp \<Rightarrow>
          gradient_loop rs (ds[idx := touched (ds ! idx)]) s idxs
            (g @ [dlogp + gradient_prior rs (length ds) s idx]))"
  by (simp add: logLikelihoodDerivative_eq split: sum.splits)

declare hessian_rows.simps(2) [simp del]

declare gradient_loop.simps(2) [simp del]

lemma hessian_rows_days:
  "length (snd (hessian_rows ds s rows h)) = length ds \<and>
   (\<forall>i<length ds. snd (hessian_rows ds s rows h) ! i = ds ! i \<or>
                   snd (hessian_rows ds s rows h) ! i = touched (ds ! i))"
proof (induction rows arbitrary: ds h)
  case Nil
  then show ?case by simp
next
  case (Cons row rows)
  let ?ds = "ds[row := touched (ds ! row)]"
  have upd: "?ds ! i = ds ! i \<or> (?ds ! i = touched (ds ! i) \<and> touched (?ds ! i) = touched (ds ! i))"
    if "i < length ds" for i
    using that by (cases "i = row") simp_all
  show ?case
  proof (cases "second_derivative (ds ! row)")
    case (Inl e)
    then show ?thesis
      using upd by (auto simp: hessian_rows_Cons)
  next
    case (Inr d2)
    let ?h = "h[row := hessian_row (length ds) s row d2]"
    have eq: "hessian_rows ds s (row # rows) h = hessian_rows ?ds s rows ?h"
      using Inr by (simp add: hessian_rows_Cons)
    have IH: "length (snd (hessian_rows ?ds s rows ?h)) = length ?ds"
      "\<And>i. i < length ?ds \<Longrightarrow> snd (hessian_rows ?ds s rows ?h) ! i = ?ds ! i \<or>
                   snd (hessian_rows ?ds s rows ?h) ! i = touched (?ds ! i)"
      using Cons.IH [of ?ds ?h] by blast+
    show ?thesis
      unfolding eq
    proof (intro conjI allI impI)
      show "length (snd (hessian_rows ?ds s rows ?h)) = length ds"
        using IH(1) by simp
      fix i assume i: "i < length ds"
      then have "i < length ?ds" by simp
      from IH(2) [OF this] upd [OF i]
      show "snd (hessian_rows ?ds s rows ?h) ! i = ds ! i \<or>
            snd (hessian_rows ?ds s rows ?h) ! i = touched (ds ! i)"
        by metis
    qed
  qed
qed

lemma gradient_loop_days:
  "length (snd (gradient_loop rs ds s idxs g)) = length ds \<and>
   (\<forall>i<length ds. snd (gradient_loop rs ds s idxs g) ! i = ds ! i \<or>
                   snd (gradient_loop rs ds s idxs g) ! i = touched (ds ! i))"
proof (induction idxs arbitrary: ds g)
  case Nil
  then show ?case by simp
next
  case (Cons idx idxs)
  let ?ds = "ds[idx := touched (ds ! idx)]"
  have upd: "?ds ! i = ds ! i \<or> (?ds ! i = touched (ds ! i) \<and> touched (?ds ! i) = touched (ds ! i))"
    if "i < length ds" for i
    using that by (cases "i = idx") simp_all
  show ?case
  proof (cases "first_derivative (ds ! idx)")
    case (Inl e)
    then show ?thesis
      using upd by (auto simp: gradient_loop_Cons)
  next
    case (Inr d1)
    let ?g = "g @ [d1 + gradient_prior rs (length ds) s idx]"
    have eq: "gradient_loop rs ds s (idx # idxs) g = gradient_loop rs ?ds s idxs ?g"
      using Inr by (simp add: gradient_loop_Cons)
    have IH: "length (snd (gradient_loop rs ?ds s idxs ?g)) = length ?ds"
      "\<And>i. i < length ?ds \<Longrightarrow> snd (gradient_loop rs ?ds s idxs ?g) ! i = ?ds ! i \<or>
                   snd (gradient_loop rs ?ds s idxs ?g) ! i = touched (?ds ! i)"
      using Cons.IH [of ?ds ?g] by blast+
    show ?thesis
      unfolding eq
    proof (intro conjI allI impI)
      show "length (snd (gradient_loop rs ?ds s idxs ?g)) = length ds"
        using IH(1) by simp
      fix i assume i: "i < length ds"
      then have "i < length ?ds" by simp
      from IH(2) [OF this] upd [OF i]
      show "snd (gradient_loop rs ?ds s idxs ?g) ! i = ds ! i \<or>
            snd (gradient_loop rs ?ds s idxs ?g) ! i = touched (ds ! i)"
        by metis
    qed
  qed
qed

lemma map_invariant_under_touched:
  assumes "length ds' = length ds"
    and "\<forall>i<length ds. ds' ! i = ds ! i \<or> ds' ! i = touched (ds ! i)"
    and "\<And>pd. f (touched pd) = f pd"
  shows "map f ds' = map f ds"
proof (rule nth_equalityI)
  show "length (map f ds') = length (map f ds)" using assms(1) by simp
  fix i assume "i < length (map f ds')"
  then have i: "i < length ds" using assms(1) by simp
  with assms(2) have "ds' ! i = ds ! i \<or> ds' ! i = touched (ds ! i)" by blast
  then have "f (ds' ! i) = f (ds ! i)" using assms(3) by auto
  then show "map f ds' ! i = map f ds ! i" using i assms(1) by simp
qed

lemma hessian_rows_success:
  assumes "hessian_rows ds s rows h = (Inr h', ds')"
    and "distinct rows" and "\<forall>row\<in>set rows. row < length ds" and "length h = length ds"
  shows "length h' = length ds \<and> length ds' = length ds \<and>
         (\<forall>i<length ds.
            (i \<in> set rows \<longrightarrow> ds' ! i = touched (ds ! i) \<and>
               (\<exists>d2. second_derivative (ds ! i) = Inr d2 \<and> h' ! i = hessian_row (length ds) s i d2)) \<and>
            (i \<notin> set rows \<longrightarrow> ds' ! i = ds ! i \<and> h' ! i = h ! i))"
  using assms
proof (induction rows arbitrary: ds h)
  case Nil
  then show ?case by simp
next
  case (Cons row rows)
  from Cons.prems(1) obtain d2 where d2: "second_derivative (ds ! row) = Inr d2"
    by (cases "second_derivative (ds ! row)") (simp_all add: hessian_rows_Cons)
  let ?ds = "ds[row := touched (ds ! row)]"
  let ?h = "h[row := hessian_row (length ds) s row d2]"
  have run: "hessian_rows ?ds s rows ?h = (Inr h', ds')"
    using Cons.prems(1) d2 by (simp add: hessian_rows_Cons)
  have row: "row < length ds" "row \<notin> set rows" "distinct rows" "\<forall>k\<in>set rows. k < length ?ds"
    using Cons.prems(2,3) by simp_all
  have IH: "length h' = length ds" "length ds' = length ds"
    "\<And>i. i < length ds \<Longrightarrow> i \<in> set rows \<Longrightarrow> ds' ! i = touched (?ds ! i) \<and>
        (\<exists>d2. second_derivative (?ds ! i) = Inr d2 \<and> h' ! i = hessian_row (length ds) s i d2)"
    "\<And>i. i < length ds \<Longrightarrow> i \<notin> set rows \<Longrightarrow> ds' ! i = ?ds ! i \<and> h' ! i = ?h ! i"
    using Cons.IH [OF run row(3,4)] Cons.prems(4) by simp_all
  show ?case
  proof (intro conjI allI impI)
    show "length h' = length ds" "length ds' = length ds" by (rule IH)+
  next
    fix i assume i: "i < length ds" and "i \<in> set (row # rows)"
    then consider "i = row" | "i \<in> set rows" "i \<noteq> row" using row(2) by auto
    then show "ds' ! i = touched (ds ! i)"
    proof cases
      case 1
      then show ?thesis using IH(4) [OF i] row i by simp
    next
      case 2
      then show ?thesis using IH(3) [OF i] by simp
    qed
  next
    fix i assume i: "i < length ds" and "i \<in> set (row # rows)"
    then consider "i = row" | "i \<in> set rows" "i \<noteq> row" using row(2) by auto
    then show "\<exists>d2. second_derivative (ds ! i) = Inr d2 \<and> h' ! i = hessian_row (length ds) s i d2"
    proof cases
      case 1
      then show ?thesis using IH(4) [OF i] row i d2 Cons.prems(4) by simp
    next
      case 2
      then show ?thesis using IH(3) [OF i] by simp
    qed
  next
    fix i assume i: "i < length ds" and n: "i \<notin> set (row # rows)"
    then show "ds' ! i = ds ! i" using IH(4) [OF i] by simp
  next
    fix i assume i: "i < length ds" and n: "i \<notin> set (row # rows)"
    then show "h' ! i = h ! i" using IH(4) [OF i] by simp
  qed
qed

lemma hessian_success:
  assumes "hessian ds s = (Inr h, ds')"
  shows "ds' = map touched ds \<and> length h = length ds \<and>
         (\<forall>i<length ds. \<exists>d2. second_derivative (ds ! i) = Inr d2 \<and>
            h ! i = hessian_row (length ds) s i d2)"
proof -
  have run: "hessian_rows ds s [0..<length ds] (replicate (length ds) (replicate (length ds) 0)) = (Inr h, ds')"
    using assms by (simp add: hessian_def Let_def)
  have res: "length h = length ds" "length ds' = length ds"
    "\<And>i. i < length ds \<Longrightarrow> ds' ! i = touched (ds ! i) \<and>
       (\<exists>d2. second_derivative (ds ! i) = Inr d2 \<and> h ! i = hessian_row (length ds) s i d2)"
    using hessian_rows_success [OF run] by simp_all
  have "ds' = map touched ds"
    by (rule nth_equalityI) (use res in simp_all)
  with res show ?thesis by blast
qed


lemma gradient_loop_success:
  assumes "gradient_loop rs ds s idxs g = (Inr g', ds')"
    and "distinct idxs" and "\<forall>idx\<in>set idxs. idx < length ds"
  shows "length g' = length g + length idxs \<and> length ds' = length ds \<and>
         (\<forall>k<length g. g' ! k = g ! k) \<and>
         (\<forall>k<length idxs. \<exists>d1. first_derivative (ds ! (idxs ! k)) = Inr d1 \<and>
            g' ! (length g + k) = d1 + gradient_prior rs (length ds) s (idxs ! k)) \<and>
         (\<forall>i<length ds. ds' ! i = (if i \<in> set idxs then touched (ds ! i) else ds ! i))"
  using assms
proof (induction idxs arbitrary: ds g)
  case Nil
  then show ?case by simp
next
  case (Cons idx idxs)
  from Cons.prems(1) obtain d1 where d1: "first_derivative (ds ! idx) = Inr d1"
    by (cases "first_derivative (ds ! idx)") (simp_all add: gradient_loop_Cons)
  let ?ds = "ds[idx := touched (ds ! idx)]"
  let ?g = "g @ [d1 + gradient_prior rs (length ds) s idx]"
  have run: "gradient_loop rs ?ds s idxs ?g = (Inr g', ds')"
    using Cons.prems(1) d1 by (simp add: gradient_loop_Cons)
  have idx: "idx < length ds" "idx \<notin> set idxs" "distinct idxs" "\<forall>k\<in>set idxs. k < length ?ds"
    using Cons.prems(2,3) by simp_all
  have IH: "length g' = length ?g + length idxs" "length ds' = length ds"
    "\<And>k. k < length ?g \<Longrightarrow> g' ! k = ?g ! k"
    "\<And>k. k < length idxs \<Longrightarrow> \<exists>d1. first_derivative (?ds ! (idxs ! k)) = Inr d1 \<and>
            g' ! (length ?g + k) = d1 + gradient_prior rs (length ds) s (idxs ! k)"
    "\<And>i. i < length ds \<Longrightarrow> ds' ! i = (if i \<in> set idxs then touched (?ds ! i) else ?ds ! i)"
    using Cons.IH [OF run idx(3,4)] by simp_all
  show ?case
  proof (intro conjI allI impI)
    show "length g' = length g + length (idx # idxs)" using IH(1) by simp
    show "length ds' = length ds" by (rule IH(2))
  next
    fix k assume "k < length g"
    then show "g' ! k = g ! k" using IH(3) [of k] by (simp add: nth_append)
  next
    fix k assume k: "k < length (idx # idxs)"
    show "\<exists>d1. first_derivative (ds ! ((idx # idxs) ! k)) = Inr d1 \<and>
            g' ! (length g + k) = d1 + gradient_prior rs (length ds) s ((idx # idxs) ! k)"
    proof (cases k)
      case 0
      then show ?thesis using IH(3) [of "length g"] d1 by simp
    next
      case (Suc k')
      with k have k': "k' < length idxs" by simp
      then have "idxs ! k' \<in> set idxs" by simp
      with idx(2) have "idxs ! k' \<noteq> idx" by auto
      then show ?thesis using IH(4) [OF k'] Suc by simp
    qed
  next
    fix i assume i: "i < length ds"
    show "ds' ! i = (if i \<in> set (idx # idxs) then touched (ds ! i) else ds ! i)"
      using IH(5) [OF i] idx(2) i by (cases "i = idx") auto
  qed
qed

lemma gradient_success:
  assumes "gradient rs ds s = (Inr g, ds')"
  shows "ds' = map touched ds \<and> length g = length ds \<and>
         (\<forall>i<length ds. \<exists>d1. first_derivative (ds ! i) = Inr d1 \<and>
            g ! i = d1 + gradient_prior rs (length ds) s i)"
proof -
  have run: "gradient_loop rs ds s [0..<length ds] [] = (Inr g, ds')"
    using assms by (simp add: gradient_def)
  have res: "length g = length ds" "length ds' = length ds"
    "\<And>i. i < length ds \<Longrightarrow> \<exists>d1. first_derivative (ds ! i) = Inr d1 \<and>
            g ! i = d1 + gradient_prior rs (length ds) s i"
    "\<And>i. i < length ds \<Longrightarrow> ds' ! i = touched (ds ! i)"
    using gradient_loop_success [OF run] by simp_all
  have "ds' = map touched ds"
    by (rule nth_equalityI) (use res in simp_all)
  with res show ?thesis by blast
qed

lemma gradient_loop_total:
  assumes "\<forall>idx\<in>set idxs. \<not> throws (first_derivative (ds ! idx))"
    and "distinct idxs" and "\<forall>idx\<in>set idxs. idx < length ds"
  shows "\<not> throws (fst (gradient_loop rs ds s idxs g))"
  using assms
proof (induction idxs arbitrary: ds g)
  case Nil
  then show ?case by simp
next
  case (Cons idx idxs)
  from Cons.prems(1) obtain d1 where d1: "first_derivative (ds ! idx) = Inr d1"
    by (cases "first_derivative (ds ! idx)") simp_all
  let ?ds = "ds[idx := touched (ds ! idx)]"
  have "first_derivative (?ds ! k) = first_derivative (ds ! k)" if "k \<in> set idxs" for k
    using that Cons.prems(2) by (cases "k = idx") auto
  then have "\<forall>k\<in>set idxs. \<not> throws (first_derivative (?ds ! k))"
    using Cons.prems(1) by simp
  then have "\<not> throws (fst (gradient_loop rs ?ds s idxs (g @ [d1 + gradient_prior rs (length ds) s idx])))"
    using Cons.prems(2,3) by (intro Cons.IH) simp_all
  then show ?case using d1 by (simp add: gradient_loop_Cons)
qed

lemma throws_first_iff_second:
  "throws (first_derivative pd) \<longleftrightarrow> throws (second_derivative pd)"
  by (simp add: first_derivative_eq second_derivative_eq split: sum.splits)

lemma gradient_after_hessian:
  assumes "hessian ds s = (Inr h, ds1)"
  shows "\<exists>g. gradient rs ds1 s = (Inr g, ds1)"
proof -
  from hessian_success [OF assms] have ds1: "ds1 = map touched ds"
    and ok: "\<And>i. i < length ds \<Longrightarrow> \<exists>d2. second_derivative (ds ! i) = Inr d2"
    by blast+
  have "\<not> throws (first_derivative (ds1 ! i))" if "i < length ds1" for i
    using that ok [of i] ds1 by (auto simp: throws_first_iff_second)
  then have "\<not> throws (fst (gradient_loop rs ds1 s [0..<length ds1] []))"
    by (intro gradient_loop_total) simp_all
  then obtain g ds2 where g: "gradient rs ds1 s = (Inr g, ds2)"
    unfolding gradient_def
    by (cases "gradient_loop rs ds1 s [0..<length ds1] []"; cases "fst (gradient_loop rs ds1 s [0..<length ds1] [])")
       auto
  from gradient_success [OF g] have "ds2 = map touched ds1" by blast
  then have "ds2 = ds1" using ds1 by simp
  with g show ?thesis by blast
qed

lemma second_derivative_update:
  "second_derivative (ds[row := touched (ds ! row)] ! j) = second_derivative (ds ! j)"
proof (cases "row < length ds")
  case True
  then show ?thesis by (simp add: nth_list_update second_derivative_touched)
next
  case False
  then show ?thesis by (simp add: list_update_beyond)
qed

lemma hessian_rows_error:
  "fst (hessian_rows ds s rows h) = Inl e \<longleftrightarrow>
     (\<exists>k<length rows. second_derivative (ds ! (rows ! k)) = Inl e \<and>
        (\<forall>j<k. \<not> throws (second_derivative (ds ! (rows ! j)))))"
proof (induction rows arbitrary: ds h)
  case Nil
  then show ?case by simp
next
  case (Cons row rows)
  show ?case
  proof (cases "second_derivative (ds ! row)")
    case (Inl e')
    have "(\<exists>k<length (row # rows). second_derivative (ds ! ((row # rows) ! k)) = Inl e \<and>
        (\<forall>j<k. \<not> throws (second_derivative (ds ! ((row # rows) ! j))))) \<longleftrightarrow> e' = e"
    proof
      assume "\<exists>k<length (row # rows). second_derivative (ds ! ((row # rows) ! k)) = Inl e \<and>
        (\<forall>j<k. \<not> throws (second_derivative (ds ! ((row # rows) ! j))))"
      then obtain k where k: "second_derivative (ds ! ((row # rows) ! k)) = Inl e"
        and pre: "\<forall>j<k. \<not> throws (second_derivative (ds ! ((row # rows) ! j)))"
        by blast
      have "k = 0"
      proof (rule ccontr)
        assume "k \<noteq> 0"
        then have "0 < k" by simp
        with pre have "\<not> throws (second_derivative (ds ! ((row # rows) ! 0)))" by blast
        with Inl show False by simp
      qed
      with k Inl show "e' = e" by simp
    next
      assume "e' = e"
      with Inl have "second_derivative (ds ! ((row # rows) ! 0)) = Inl e \<and>
        (\<forall>j<0. \<not> throws (second_derivative (ds ! ((row # rows) ! j))))"
        by simp
      then show "\<exists>k<length (row # rows). second_derivative (ds ! ((row # rows) ! k)) = Inl e \<and>
        (\<forall>j<k. \<not> throws (second_derivative (ds ! ((row # rows) ! j))))"
        by (intro exI [of _ 0]) simp
    qed
    moreover have "fst (hessian_rows ds s (row # rows) h) = Inl e'"
      using Inl by (simp add: hessian_rows_Cons)
    ultimately show ?thesis by simp
  next
    case (Inr d2)
    let ?ds = "ds[row := touched (ds ! row)]"
    let ?h = "h[row := hessian_row (length ds) s row d2]"
    have run: "hessian_rows ds s (row # rows) h = hessian_rows ?ds s rows ?h"
      using Inr by (simp add: hessian_rows_Cons)
    have IH: "fst (hessian_rows ?ds s rows ?h) = Inl e \<longleftrightarrow>
       (\<exists>k<length rows. second_derivative (ds ! (rows ! k)) = Inl e \<and>
          (\<forall>j<k. \<not> throws (second_derivative (ds ! (rows ! j)))))"
      using Cons.IH [of ?ds ?h] by (simp only: second_derivative_update)
    have "(\<exists>k<length (row # rows). second_derivative (ds ! ((row # rows) ! k)) = Inl e \<and>
        (\<forall>j<k. \<not> throws (second_derivative (ds ! ((row # rows) ! j))))) \<longleftrightarrow>
       (\<exists>k<length rows. second_derivative (ds ! (rows ! k)) = Inl e \<and>
          (\<forall>j<k. \<not> throws (second_derivative (ds ! (rows ! j)))))"
    proof
      assume "\<exists>k<length (row # rows). second_derivative (ds ! ((row # rows) ! k)) = Inl e \<and>
        (\<forall>j<k. \<not> throws (second_derivative (ds ! ((row # rows) ! j))))"
      then obtain k where kl: "k < length (row # rows)"
        and k: "second_derivative (ds ! ((row # rows) ! k)) = Inl e"
        and pre: "\<forall>j<k. \<not> throws (second_derivative (ds ! ((row # rows) ! j)))"
        by blast
      from k Inr have "k \<noteq> 0" by (cases k) auto
      then obtain k' where k': "k = Suc k'" by (cases k) auto
      have "\<forall>j<k'. \<not> throws (second_derivative (ds ! (rows ! j)))"
      proof (intro allI impI)
        fix j assume "j < k'"
        then have "Suc j < k" using k' by simp
        with pre have "\<not> throws (second_derivative (ds ! ((row # rows) ! Suc j)))" by blast
        then show "\<not> throws (second_derivative (ds ! (rows ! j)))" by simp
      qed
      with kl k k' show "\<exists>k<length rows. second_derivative (ds ! (rows ! k)) = Inl e \<and>
          (\<forall>j<k. \<not> throws (second_derivative (ds ! (rows ! j))))"
        by (intro exI [of _ k']) simp
    next
      assume "\<exists>k<length rows. second_derivative (ds ! (rows ! k)) = Inl e \<and>
          (\<forall>j<k. \<not> throws (second_derivative (ds ! (rows ! j))))"
      then obtain k where kl: "k < length rows"
        and k: "second_derivative (ds ! (rows ! k)) = Inl e"
        and pre: "\<forall>j<k. \<not> throws (second_derivative (ds ! (rows ! j)))"
        by blast
      have "\<forall>j<Suc k. \<not> throws (second_derivative (ds ! ((row # rows) ! j)))"
      proof (intro allI impI)
        fix j assume j: "j < Suc k"
        show "\<not> throws (second_derivative (ds ! ((row # rows) ! j)))"
        proof (cases j)
          case 0
          with Inr show ?thesis by simp
        next
          case (Suc j')
          with j pre show ?thesis by simp
        qed
      qed
      with kl k show "\<exists>k<length (row # rows). second_derivative (ds ! ((row # rows) ! k)) = Inl e \<and>
        (\<forall>j<k. \<not> throws (second_derivative (ds ! ((row # rows) ! j))))"
        by (intro exI [of _ "Suc k"]) simp
    qed
    with IH run show ?thesis by simp
  qed
qed

lemma hessian_error:
  "fst (hessian ds s) = Inl e \<longleftrightarrow>
     (\<exists>k<length ds. second_derivative (ds ! k) = Inl e \<and>
        (\<forall>j<k. \<not> throws (second_derivative (ds ! j))))"
proof -
  have "fst (hessian ds s) =
      fst (hessian_rows ds s [0..<length ds] (replicate (length ds) (replicate (length ds) 0)))"
    by (simp add: hessian_def Let_def)
  then have "fst (hessian ds s) = Inl e \<longleftrightarrow>
     (\<exists>k<length [0..<length ds]. second_derivative (ds ! ([0..<length ds] ! k)) = Inl e \<and>
        (\<forall>j<k. \<not> throws (second_derivative (ds ! ([0..<length ds] ! j)))))"
    by (simp only: hessian_rows_error)
  also have "\<dots> \<longleftrightarrow> (\<exists>k<length ds. second_derivative (ds ! k) = Inl e \<and>
        (\<forall>j<k. \<not> throws (second_derivative (ds ! j))))"
    by (auto simp: less_trans)
  finally show ?thesis .
qed

lemma is_unstable_iff: "is_unstable x \<longleftrightarrow> (\<exists>m. x = Inl (UnstableRatingException m))"
proof (cases x)
  case (Inl e)
  then show ?thesis by (cases e) simp_all
next
  case (Inr v)
  then show ?thesis by simp
qed

lemma hessian_unstable:
  "is_unstable (fst (hessian ds s)) \<longleftrightarrow>
     (\<exists>k<length ds. is_unstable (second_derivative (ds ! k)) \<and>
        (\<forall>j<k. \<not> throws (second_derivative (ds ! j))))"
  unfolding is_unstable_iff hessian_error by blast

section \<open>The system assembled by the Newton step\<close>

lemma length_computeSigma2: "length (computeSigma2 p) = length (days p) - 1"
  by (simp add: computeSigma2_def)

lemma nth_computeSigma2:
  assumes "i + 1 < length (days p)"
  shows "computeSigma2 p ! i = \<bar>day (days p ! (i + 1)) - day (days p ! i)\<bar> * w2 p"
proof -
  from assms have "i < length (days p) - 1" by arith
  then show ?thesis by (simp add: computeSigma2_def)
qed

lemma computeSigma2_cong:
  assumes "map day (days p') = map day (days p)" and "w2 p' = w2 p"
  shows "computeSigma2 p' = computeSigma2 p"
proof -
  have len: "length (days p') = length (days p)"
    using assms(1) by (metis length_map)
  have "day (days p' ! i) = day (days p ! i)" if "i < length (days p)" for i
    using that assms(1) len by (metis nth_map)
  then show ?thesis
    using len assms(2) by (simp add: computeSigma2_def)
qed

lemma hessian_prior_eq:
  "hessian_prior n s row =
     (if row + 1 < n then - 1 / s ! row else 0) + (if 0 < row then - 1 / s ! (row - 1) else 0)"
  by (auto simp: hessian_prior_def Let_def)

lemma gradient_prior_eq:
  "gradient_prior rs n s idx =
     (if idx + 1 < n then - (rs ! idx - rs ! (idx + 1)) / s ! idx else 0) +
     (if 0 < idx then - (rs ! idx - rs ! (idx - 1)) / s ! (idx - 1) else 0)"
  by (auto simp: gradient_prior_def Let_def)

lemma nth_hessian_row:
  "j < n \<Longrightarrow> hessian_row n s i d2 ! j =
     (if i = j then d2 + hessian_prior n s i - 1 / 1000
      else if Suc i = j then 1 / s ! i
      else if i = Suc j then 1 / s ! j
      else 0)"
  by (simp add: hessian_row_def)

lemma length_hessian_row: "length (hessian_row n s i d2) = n"
  by (simp add: hessian_row_def)

lemma newton_system_success:
  assumes "newton_system p = (Inr (h, g), ds)"
  shows "hessian (days p) (computeSigma2 p) = (Inr h, ds) \<and>
         gradient (map r (days p)) ds (computeSigma2 p) = (Inr g, ds) \<and>
         ds = map touched (days p)"
proof -
  from assms obtain ds1 where h: "hessian (days p) (computeSigma2 p) = (Inr h, ds1)"
    and g: "gradient (map r (days p)) ds1 (computeSigma2 p) = (Inr g, ds)"
    by (auto simp: newton_system_def split: prod.splits sum.splits)
  from hessian_success [OF h] have ds1: "ds1 = map touched (days p)" by blast
  from gradient_success [OF g] have "ds = map touched ds1" by blast
  with ds1 have "ds = ds1" by simp
  with h g ds1 show ?thesis by simp
qed

lemma updateByNDimNewton_eq:
  "updateByNDimNewton p =
     (case newton_system p of
        (Inl e, ds) \<Rightarrow> (Inl e, p\<lparr>days := ds\<rparr>)
      | (Inr (h, g), ds) \<Rightarrow>
          (case newton_solution h g (length (days p)) of
             Inl e \<Rightarrow> (Inl e, p\<lparr>days := ds\<rparr>)
           | Inr x \<Rightarrow>
               (if list_ex (\<lambda>newRi. newRi > 650) (newRatings (map r (days p)) x)
                then (Inl (UnstableRatingException ''Unstable r''), p\<lparr>days := ds\<rparr>)
                else (Inr (), p\<lparr>days := commitRatings ds (newRatings (map r (days p)) x)\<rparr>))))"
  by (simp add: updateByNDimNewton_def newton_system_def newton_solution_def Let_def
      split: prod.splits sum.splits)

lemma assembled_entries:
  assumes n: "1 < length (days p)"
    and sys: "newton_system (p\<lparr>days := map clearGameTermsCache (days p)\<rparr>) = (Inr (h, g), ds)"
  shows "length (computeSigma2 p) = length (days p) - 1 \<and>
    (\<forall>i. i + 1 < length (days p) \<longrightarrow>
       computeSigma2 p ! i = \<bar>day (days p ! (i + 1)) - day (days p ! i)\<bar> * w2 p) \<and>
    length g = length (days p) \<and>
    (\<forall>i<length (days p). \<exists>dlogp.
       fst (logLikelihoodDerivative (clearGameTermsCache (days p ! i))) = Inr dlogp \<and>
       g ! i = dlogp +
         ((if i + 1 < length (days p)
           then - (r (days p ! i) - r (days p ! (i + 1))) / computeSigma2 p ! i else 0) +
          (if 0 < i
           then - (r (days p ! i) - r (days p ! (i - 1))) / computeSigma2 p ! (i - 1) else 0))) \<and>
    length h = length (days p) \<and>
    (\<forall>i<length (days p). length (h ! i) = length (days p) \<and>
       (\<exists>d2logp.
          fst (logLikelihoodSecondDerivative (clearGameTermsCache (days p ! i))) = Inr d2logp \<and>
          h ! i ! i = d2logp +
            ((if i + 1 < length (days p) then - 1 / computeSigma2 p ! i else 0) +
             (if 0 < i then - 1 / computeSigma2 p ! (i - 1) else 0)) - 1 / 1000)) \<and>
    (\<forall>i. i + 1 < length (days p) \<longrightarrow>
       h ! i ! (i + 1) = 1 / computeSigma2 p ! i \<and> h ! (i + 1) ! i = 1 / computeSigma2 p ! i) \<and>
    (\<forall>i<length (days p). \<forall>j<length (days p).
       i \<noteq> j \<and> i + 1 \<noteq> j \<and> i \<noteq> j + 1 \<longrightarrow> h ! i ! j = 0)"
proof -
  let ?p = "p\<lparr>days := map clearGameTermsCache (days p)\<rparr>"
  let ?n = "length (days p)"
  let ?s = "computeSigma2 p"
  have sigma: "computeSigma2 ?p = ?s"
    by (rule computeSigma2_cong) (simp_all add: comp_def)
  have rs: "map r (days ?p) = map r (days p)"
    by (simp add: comp_def)
  from newton_system_success [OF sys]
  have s1: "hessian (days ?p) (computeSigma2 ?p) = (Inr h, ds)"
    and s2: "gradient (map r (days ?p)) ds (computeSigma2 ?p) = (Inr g, ds)"
    and ds: "ds = map touched (days ?p)"
    by blast+
  have hs: "hessian (days ?p) ?s = (Inr h, ds)"
    using s1 unfolding sigma .
  have gs: "gradient (map r (days p)) ds ?s = (Inr g, ds)"
    using s2 unfolding sigma rs .
  from hessian_success [OF hs]
  have lh: "length h = ?n"
    and hrow: "\<And>i. i < ?n \<Longrightarrow> \<exists>d2. second_derivative (clearGameTermsCache (days p ! i)) = Inr d2 \<and>
          h ! i = hessian_row ?n ?s i d2"
    by simp_all
  from gradient_success [OF gs]
  have lg: "length g = ?n"
    and grow: "\<And>i. i < ?n \<Longrightarrow> \<exists>d1. first_derivative (clearGameTermsCache (days p ! i)) = Inr d1 \<and>
          g ! i = d1 + gradient_prior (map r (days p)) ?n ?s i"
    using ds by simp_all
  have gradient_part: "\<exists>dlogp.
       fst (logLikelihoodDerivative (clearGameTermsCache (days p ! i))) = Inr dlogp \<and>
       g ! i = dlogp +
         ((if i + 1 < ?n then - (r (days p ! i) - r (days p ! (i + 1))) / ?s ! i else 0) +
          (if 0 < i then - (r (days p ! i) - r (days p ! (i - 1))) / ?s ! (i - 1) else 0))"
    if i: "i < ?n" for i
  proof -
    from grow [OF i] obtain d1
      where d1: "first_derivative (clearGameTermsCache (days p ! i)) = Inr d1"
        and gi: "g ! i = d1 + gradient_prior (map r (days p)) ?n ?s i"
      by blast
    have "gradient_prior (map r (days p)) ?n ?s i =
         ((if i + 1 < ?n then - (r (days p ! i) - r (days p ! (i + 1))) / ?s ! i else 0) +
          (if 0 < i then - (r (days p ! i) - r (days p ! (i - 1))) / ?s ! (i - 1) else 0))"
      using i by (simp add: gradient_prior_eq cong: if_cong)
    with d1 gi show ?thesis
      by (simp add: first_derivative_def)
  qed
  have diagonal_part: "length (h ! i) = ?n \<and>
       (\<exists>d2logp.
          fst (logLikelihoodSecondDerivative (clearGameTermsCache (days p ! i))) = Inr d2logp \<and>
          h ! i ! i = d2logp +
            ((if i + 1 < ?n then - 1 / ?s ! i else 0) +
             (if 0 < i then - 1 / ?s ! (i - 1) else 0)) - 1 / 1000)"
    if i: "i < ?n" for i
  proof -
    from hrow [OF i] obtain d2
      where d2: "second_derivative (clearGameTermsCache (days p ! i)) = Inr d2"
        and hi: "h ! i = hessian_row ?n ?s i d2"
      by blast
    have "h ! i ! i = d2 + hessian_prior ?n ?s i - 1 / 1000"
      using i by (simp add: hi nth_hessian_row)
    with d2 hi show ?thesis
      by (simp add: second_derivative_def hessian_prior_eq length_hessian_row)
  qed
  have off_part: "h ! i ! (i + 1) = 1 / ?s ! i \<and> h ! (i + 1) ! i = 1 / ?s ! i"
    if i: "i + 1 < ?n" for i
  proof -
    from i have i0: "i < ?n" by simp
    from hrow [OF i0] obtain d2 where hi: "h ! i = hessian_row ?n ?s i d2" by blast
    from i have "Suc i < ?n" by simp
    from hrow [OF this] obtain d2' where hj: "h ! Suc i = hessian_row ?n ?s (Suc i) d2'" by blast
    show ?thesis
      using i by (simp add: hi hj nth_hessian_row)
  qed
  have zero_part: "h ! i ! j = 0"
    if "i < ?n" "j < ?n" "i \<noteq> j \<and> i + 1 \<noteq> j \<and> i \<noteq> j + 1" for i j
  proof -
    from hrow [OF that(1)] obtain d2 where hi: "h ! i = hessian_row ?n ?s i d2" by blast
    show ?thesis
      using that by (simp add: hi nth_hessian_row)
  qed
  show ?thesis
    using length_computeSigma2 [of p] nth_computeSigma2 [of _ p] lg lh
      gradient_part diagonal_part off_part zero_part
    by blast
qed

text \<open>
  Claim C1. For a trajectory with \<open>n > 1\<close> days, one call of
  \<open>runOneNewtonIteration\<close> clears the caches and assembles from the current ratings
  \<open>r\<close>: \<open>sigma2[i] = |day[i+1] - day[i]| * w2\<close> for \<open>i = 0..n-2\<close>; the
  \<open>n\<close> by \<open>n\<close> Hessian whose diagonal entry \<open>i\<close> is the second derivative of
  the day's log-likelihood plus \<open>-1/sigma2[i]\<close> (when \<open>i < n-1\<close>) plus
  \<open>-1/sigma2[i-1]\<close> (when \<open>i > 0\<close>) minus 0.001, whose entries next to the diagonal
  are \<open>H[i][i+1] = H[i+1][i] = 1/sigma2[i]\<close>, and whose other entries are zero; and,
  once the Hessian \<open>h\<close> is returned, the gradient with \<open>g[i]\<close> the first derivative of
  the day's log-likelihood, minus \<open>(r[i]-r[i+1])/sigma2[i]\<close> when \<open>i < n-1\<close>, minus
  \<open>(r[i]-r[i-1])/sigma2[i-1]\<close> when \<open>i > 0\<close>. The call then returns what the
  elimination, the two substitutions, the stability check and the update of the ratings
  make of this \<open>h\<close> and this \<open>g\<close>.
\<close>

theorem newton_system_entries:
  assumes n: "1 < length (days p)"
    and hs: "hessian (map clearGameTermsCache (days p)) (computeSigma2 p) = (Inr h, ds)"
  shows "\<exists>g.
    gradient (map r (days p)) ds (computeSigma2 p) = (Inr g, ds) \<and>
    runOneNewtonIteration p =
      (case luDecompositionTridiagonal h (length (days p)) of
         Inl e \<Rightarrow> (Inl e, p\<lparr>days := ds\<rparr>)
       | Inr (a, d, b) \<Rightarrow>
           (let y = forwardSubstitution g a (length (days p));
                x = backSubstitution y d b (length (days p));
                newR = newRatings (map r (days p)) x
            in if list_ex (\<lambda>newRi. newRi > 650) newR
               then (Inl (UnstableRatingException ''Unstable r''), p\<lparr>days := ds\<rparr>)
               else (Inr (), p\<lparr>days := commitRatings ds newR\<rparr>))) \<and>
    length (computeSigma2 p) = length (days p) - 1 \<and>
    (\<forall>i. i + 1 < length (days p) \<longrightarrow>
       computeSigma2 p ! i = \<bar>day (days p ! (i + 1)) - day (days p ! i)\<bar> * w2 p) \<and>
    length g = length (days p) \<and>
    (\<forall>i<length (days p). \<exists>dlogp.
       fst (logLikelihoodDerivative (clearGameTermsCache (days p ! i))) = Inr dlogp \<and>
       g ! i = dlogp +
         ((if i + 1 < length (days p)
           then - (r (days p ! i) - r (days p ! (i + 1))) / computeSigma2 p ! i else 0) +
          (if 0 < i
           then - (r (days p ! i) - r (days p ! (i - 1))) / computeSigma2 p ! (i - 1) else 0))) \<and>
    length h = length (days p) \<and>
    (\<forall>i<length (days p). length (h ! i) = length (days p) \<and>
       (\<exists>d2logp.
          fst (logLikelihoodSecondDerivative (clearGameTermsCache (days p ! i))) = Inr d2logp \<and>
          h ! i ! i = d2logp +
            ((if i + 1 < length (days p) then - 1 / computeSigma2 p ! i else 0) +
             (if 0 < i then - 1 / computeSigma2 p ! (i - 1) else 0)) - 1 / 1000)) \<and>
    (\<forall>i. i + 1 < length (days p) \<longrightarrow>
       h ! i ! (i + 1) = 1 / computeSigma2 p ! i \<and> h ! (i + 1) ! i = 1 / computeSigma2 p ! i) \<and>
    (\<forall>i<length (days p). \<forall>j<length (days p).
       i \<noteq> j \<and> i + 1 \<noteq> j \<and> i \<noteq> j + 1 \<longrightarrow> h ! i ! j = 0)"
proof -
  let ?p = "p\<lparr>days := map clearGameTermsCache (days p)\<rparr>"
  let ?n = "length (days p)"
  let ?s = "computeSigma2 p"
  have sigma: "computeSigma2 ?p = ?s"
    by (rule computeSigma2_cong) (simp_all add: comp_def)
  have rs: "map r (days ?p) = map r (days p)"
    by (simp add: comp_def)
  from gradient_after_hessian [OF hs, of "map r (days p)"]
  obtain g where gs: "gradient (map r (days p)) ds ?s = (Inr g, ds)"
    by blast
  have hs': "hessian (days ?p) (computeSigma2 ?p) = (Inr h, ds)"
    using hs by (simp add: sigma)
  have gs': "gradient (map r (days ?p)) ds (computeSigma2 ?p) = (Inr g, ds)"
    using gs by (simp only: sigma rs)
  have sys: "newton_system ?p = (Inr (h, g), ds)"
    using hs' gs' by (simp add: newton_system_def)
  have run: "runOneNewtonIteration p = updateByNDimNewton ?p"
    using n by (simp add: runOneNewtonIteration_def Let_def)
  have "updateByNDimNewton ?p =
      (case luDecompositionTridiagonal h (length (days ?p)) of
         Inl e \<Rightarrow> (Inl e, ?p\<lparr>days := ds\<rparr>)
       | Inr (a, d, b) \<Rightarrow>
           (let y = forwardSubstitution g a (length (days ?p));
                x = backSubstitution y d b (length (days ?p));
                newR = newRatings (map r (days ?p)) x
            in if list_ex (\<lambda>newRi. newRi > 650) newR
               then (Inl (UnstableRatingException ''Unstable r''), ?p\<lparr>days := ds\<rparr>)
               else (Inr (), ?p\<lparr>days := commitRatings ds newR\<rparr>)))"
    using sys
    by (simp add: updateByNDimNewton_eq newton_solution_def Let_def split: sum.splits prod.splits)
  then have step: "runOneNewtonIteration p =
      (case luDecompositionTridiagonal h ?n of
         Inl e \<Rightarrow> (Inl e, p\<lparr>days := ds\<rparr>)
       | Inr (a, d, b) \<Rightarrow>
           (let y = forwardSubstitution g a ?n;
                x = backSubstitution y d b ?n;
                newR = newRatings (map r (days p)) x
            in if list_ex (\<lambda>newRi. newRi > 650) newR
               then (Inl (UnstableRatingException ''Unstable r''), p\<lparr>days := ds\<rparr>)
               else (Inr (), p\<lparr>days := commitRatings ds newR\<rparr>)))"
    unfolding run by (simp add: Let_def comp_def split: sum.splits prod.splits)
  show ?thesis
    by (rule exI [of _ g], rule conjI [OF gs], rule conjI [OF step],
        rule assembled_entries [OF n sys])
qed

lemma example_player2_days:
  "map clearGameTermsCache (days example_player2) =
     [(new_PlayerDay 0 1)\<lparr>isFirstDay := True, uncertainty := 0\<rparr>,
      (new_PlayerDay 0 2)\<lparr>r := 2, uncertainty := 0\<rparr>]"
  by (simp add: example_player2_def clearGameTermsCache_def new_PlayerDay_def)

lemma example_first_day_derivatives:
  "first_derivative ((new_PlayerDay 0 1)\<lparr>isFirstDay := True, uncertainty := 0\<rparr>) = Inr 0"
  "second_derivative ((new_PlayerDay 0 1)\<lparr>isFirstDay := True, uncertainty := 0\<rparr>) = Inr (- 1 / 2)"
proof -
  let ?pd = "(new_PlayerDay 0 1)\<lparr>isFirstDay := True, uncertainty := 0\<rparr>"
  have w: "won_terms ?pd = Inr [won_term 1]"
    by (simp add: won_terms_def wonGameTerms_def new_PlayerDay_def Let_def)
  have l: "lost_terms ?pd = Inr [lost_term 1]"
    by (simp add: lost_terms_def lostGameTerms_def new_PlayerDay_def Let_def)
  have gm: "gamma ?pd = 1"
    by (simp add: gamma_def gamma_of_def new_PlayerDay_def)
  show "first_derivative ?pd = Inr 0"
    using w l gm by (simp add: first_derivative_eq tally_of_def won_term_def lost_term_def)
  show "second_derivative ?pd = Inr (- 1 / 2)"
    using w l gm by (simp add: second_derivative_eq curvature_of_def won_term_def lost_term_def)
qed

lemma example_second_day_derivatives:
  "first_derivative ((new_PlayerDay 0 2)\<lparr>r := 2, uncertainty := 0\<rparr>) = Inr 0"
  "second_derivative ((new_PlayerDay 0 2)\<lparr>r := 2, uncertainty := 0\<rparr>) = Inr 0"
proof -
  let ?pd = "(new_PlayerDay 0 2)\<lparr>r := 2, uncertainty := 0\<rparr>"
  have w: "won_terms ?pd = Inr []"
    by (simp add: won_terms_def wonGameTerms_def new_PlayerDay_def Let_def)
  have l: "lost_terms ?pd = Inr []"
    by (simp add: lost_terms_def lostGameTerms_def new_PlayerDay_def Let_def)
  show "first_derivative ?pd = Inr 0"
    using w l by (simp add: first_derivative_eq tally_of_def)
  show "second_derivative ?pd = Inr 0"
    using w l by (simp add: second_derivative_eq curvature_of_def)
qed

lemma example_player2_sigma2: "computeSigma2 example_player2 = [1]"
  by (simp add: computeSigma2_def example_player2_def new_PlayerDay_def)

lemma example_player2_system:
  "fst (newton_system (example_player2\<lparr>days := map clearGameTermsCache (days example_player2)\<rparr>)) =
     Inr ([[- 1501 / 1000, 1], [1, - 1001 / 1000]], [2, - 2])"
proof -
  let ?d0 = "(new_PlayerDay 0 1)\<lparr>isFirstDay := True, uncertainty := 0\<rparr>"
  let ?d1 = "(new_PlayerDay 0 2)\<lparr>r := 2, uncertainty := 0\<rparr>"
  let ?p = "example_player2\<lparr>days := map clearGameTermsCache (days example_player2)\<rparr>"
  have s: "computeSigma2 ?p = [1]"
    using example_player2_sigma2
    by (simp add: computeSigma2_def example_player2_def new_PlayerDay_def clearGameTermsCache_def)
  have r: "r ?d0 = 0" "r ?d1 = 2"
    by (simp_all add: new_PlayerDay_def)
  have h: "hessian [?d0, ?d1] [1] =
      (Inr [[- 1501 / 1000, 1], [1, - 1001 / 1000]], [touched ?d0, touched ?d1])"
    by (simp add: hessian_def hessian_rows_Cons example_first_day_derivatives
        example_second_day_derivatives hessian_row_def hessian_prior_def Let_def)
  have g: "gradient [0, 2] [touched ?d0, touched ?d1] [1] =
      (Inr [2, - 2], [touched ?d0, touched ?d1])"
    by (simp add: gradient_def gradient_loop_Cons example_first_day_derivatives
        example_second_day_derivatives gradient_prior_def Let_def)
  show ?thesis
    using h g s r by (simp add: newton_system_def example_player2_days)
qed

section \<open>Properties of the tridiagonal solver\<close>

lemma length_set_at: "length (set_at xs i v) = max (length xs) (Suc i)"
  by (auto simp: set_at_def)

lemma nth_set_at_same: "set_at xs i v ! i = v"
  by (simp add: set_at_def nth_append)

lemma nth_set_at_other: "j \<noteq> i \<Longrightarrow> j < length xs \<Longrightarrow> set_at xs i v ! j = xs ! j"
  by (simp add: set_at_def nth_append)

lemma length_Array: "length (Array n) = n"
  by (simp add: Array_def)

lemma fold_upt_invariant:
  assumes "P m s" and "m \<le> n"
    and "\<And>k s. m \<le> k \<Longrightarrow> k < n \<Longrightarrow> P k s \<Longrightarrow> P (Suc k) (f k s)"
  shows "P n (fold f [m..<n] s)"
  using assms(2,3)
proof (induction n)
  case 0
  with assms(1) show ?case by simp
next
  case (Suc n)
  show ?case
  proof (cases "m = Suc n")
    case True
    with assms(1) show ?thesis by simp
  next
    case False
    with Suc.prems(1) have le: "m \<le> n" by simp
    have "P n (fold f [m..<n] s)"
      using le Suc.prems(2) by (intro Suc.IH) simp_all
    then have "P (Suc n) (f n (fold f [m..<n] s))"
      using le by (intro Suc.prems(2)) simp_all
    then show ?thesis using le by simp
  qed
qed

lemma fold_rev_upt_invariant:
  assumes "P n s"
    and "\<And>k s. k < n \<Longrightarrow> P (Suc k) s \<Longrightarrow> P k (f k s)"
  shows "P 0 (fold f (rev [0..<n]) s)"
  using assms
proof (induction n arbitrary: s)
  case 0
  then show ?case by simp
next
  case (Suc n)
  have "P n (f n s)"
    using Suc.prems by simp
  then have "P 0 (fold f (rev [0..<n]) (f n s))"
    using Suc.prems(2) by (intro Suc.IH) simp_all
  then show ?case by simp
qed

lemma lu_step_relation:
  assumes "lu_relation h n k s" and "0 < k" and "k < n"
  shows "lu_relation h n (Suc k) (lu_step h n k s)"
proof -
  obtain a d b where s: "s = (a, d, b)" by (cases s) auto
  define a1 where "a1 = set_at a k (h ! k ! (k - 1) / d ! (k - 1))"
  define d1 where "d1 = set_at d k (h ! k ! k - a1 ! k * b ! (k - 1))"
  define b1 where "b1 = (if k < n - 1 then set_at b k (h ! k ! (k + 1)) else b)"
  have step: "lu_step h n k s = (a1, d1, b1)"
    by (simp add: lu_step_def s a1_def d1_def b1_def Let_def)
  from assms(1) have la: "length a = n" and ld: "length d = k" and lb: "length b = n"
    and d0: "d ! 0 = h ! 0 ! 0"
    and rec: "\<And>i. 0 < i \<Longrightarrow> i < k \<Longrightarrow>
        a ! i = h ! i ! (i - 1) / d ! (i - 1) \<and> d ! i = h ! i ! i - a ! i * b ! (i - 1)"
    and sup: "\<And>i. i < k \<Longrightarrow> i + 1 < n \<Longrightarrow> b ! i = h ! i ! (i + 1)"
    by (simp_all add: lu_relation_def s)
  have la1: "length a1 = n" using la assms(3) by (simp add: a1_def length_set_at)
  have ld1: "length d1 = Suc k" using ld by (simp add: d1_def length_set_at)
  have lb1: "length b1 = n" using lb assms(3) by (simp add: b1_def length_set_at)
  have a1_old: "a1 ! i = a ! i" if "i < k" for i
    using that la assms(3) by (simp add: a1_def nth_set_at_other)
  have d1_old: "d1 ! i = d ! i" if "i < k" for i
    using that ld by (simp add: d1_def nth_set_at_other)
  have b1_old: "b1 ! i = b ! i" if "i < k" for i
    using that lb assms(3) by (simp add: b1_def nth_set_at_other)
  have a1k: "a1 ! k = h ! k ! (k - 1) / d ! (k - 1)" by (simp add: a1_def nth_set_at_same)
  have d1k: "d1 ! k = h ! k ! k - a1 ! k * b ! (k - 1)" by (simp add: d1_def nth_set_at_same)
  have b1k: "b1 ! k = h ! k ! (k + 1)" if "k + 1 < n"
  proof -
    from that have "k < n - 1" by simp
    then show ?thesis by (simp add: b1_def nth_set_at_same)
  qed
  have d10: "d1 ! 0 = h ! 0 ! 0" using d0 d1_old [of 0] assms(2) by simp
  have rec1: "a1 ! i = h ! i ! (i - 1) / d1 ! (i - 1) \<and> d1 ! i = h ! i ! i - a1 ! i * b1 ! (i - 1)"
    if "0 < i" "i < Suc k" for i
  proof (cases "i = k")
    case True
    have "k - 1 < k" using assms(2) by simp
    then show ?thesis
      using True a1k d1k d1_old [of "k - 1"] b1_old [of "k - 1"] by simp
  next
    case False
    with that have ik: "i < k" by simp
    then have "i - 1 < k" by simp
    then show ?thesis
      using rec [OF that(1) ik] a1_old [OF ik] d1_old [OF ik] d1_old [of "i - 1"] b1_old [of "i - 1"]
      by simp
  qed
  have sup1: "b1 ! i = h ! i ! (i + 1)" if "i < Suc k" "i + 1 < n" for i
  proof (cases "i = k")
    case True
    with that b1k show ?thesis by simp
  next
    case False
    with that have ik: "i < k" by simp
    with sup [OF ik that(2)] b1_old [OF ik] show ?thesis by simp
  qed
  show ?thesis
    unfolding step lu_relation_def
    using la1 ld1 lb1 d10 rec1 sup1 by simp
qed

lemma luDecompositionTridiagonal_relation:
  assumes "h \<noteq> []" and "0 < n" and "1 < n \<longrightarrow> 1 < length (h ! 0)"
  shows "\<exists>a d b. luDecompositionTridiagonal h n = Inr (a, d, b) \<and> lu_relation h n n (a, d, b)"
proof -
  define b0 where "b0 = set_at (Array n) 0 (if 1 < length (h ! 0) then h ! 0 ! 1 else 0)"
  define s0 where "s0 = (Array n, [h ! 0 ! 0], b0)"
  have lu: "luDecompositionTridiagonal h n = Inr (fold (lu_step h n) [1..<n] s0)"
    using assms(1,2) by (simp add: luDecompositionTridiagonal_def s0_def b0_def Let_def)
  have "b0 ! 0 = h ! 0 ! 1" if "1 < n"
    using that assms(3) by (simp add: b0_def nth_set_at_same)
  then have init: "lu_relation h n 1 s0"
    using assms(2)
    by (simp add: lu_relation_def s0_def b0_def length_Array length_set_at max_def)
  have "lu_relation h n n (fold (lu_step h n) [1..<n] s0)"
  proof (rule fold_upt_invariant [where P = "lu_relation h n"])
    show "lu_relation h n 1 s0" by (rule init)
    show "1 \<le> n" using assms(2) by simp
    show "lu_relation h n (Suc k) (lu_step h n k s)"
      if "1 \<le> k" "k < n" "lu_relation h n k s" for k s
      using lu_step_relation [OF that(3)] that(1,2) by simp
  qed
  then show ?thesis
    using lu by (cases "fold (lu_step h n) [1..<n] s0") auto
qed

lemma forwardSubstitution_relation:
  assumes "0 < n"
  shows "forward_relation g a n (forwardSubstitution g a n)"
  unfolding forwardSubstitution_def
proof (rule fold_upt_invariant [where P = "forward_relation g a"])
  show "forward_relation g a 1 [g ! 0]"
    by (simp add: forward_relation_def)
  show "1 \<le> n" using assms by simp
  show "forward_relation g a (Suc k) (set_at y k (g ! k - a ! k * y ! (k - 1)))"
    if "1 \<le> k" "k < n" "forward_relation g a k y" for k y
  proof -
    let ?y = "set_at y k (g ! k - a ! k * y ! (k - 1))"
    from that(3) have ly: "length y = k" and y0: "y ! 0 = g ! 0"
      and rec: "\<And>i. 0 < i \<Longrightarrow> i < k \<Longrightarrow> y ! i = g ! i - a ! i * y ! (i - 1)"
      by (simp_all add: forward_relation_def)
    have old: "?y ! i = y ! i" if "i < k" for i
      using that ly by (simp add: nth_set_at_other)
    have new: "?y ! k = g ! k - a ! k * y ! (k - 1)"
      by (simp add: nth_set_at_same)
    have "?y ! i = g ! i - a ! i * ?y ! (i - 1)" if "0 < i" "i < Suc k" for i
    proof (cases "i = k")
      case True
      then show ?thesis using new old [of "k - 1"] that(1) by simp
    next
      case False
      with that have ik: "i < k" by simp
      then show ?thesis using rec [OF that(1) ik] old [OF ik] old [of "i - 1"] by simp
    qed
    moreover have "?y ! 0 = g ! 0" using old [of 0] y0 that(1) by simp
    moreover have "length ?y = Suc k" using ly by (simp add: length_set_at)
    ultimately show ?thesis by (simp add: forward_relation_def)
  qed
qed

lemma backSubstitution_relation:
  assumes "0 < n"
  shows "back_relation y d b n 0 (backSubstitution y d b n)"
  unfolding backSubstitution_def
proof (rule fold_rev_upt_invariant [where P = "back_relation y d b n" and n = "n - 1"])
  show "back_relation y d b n (n - 1) (set_at (Array n) (n - 1) (y ! (n - 1) / d ! (n - 1)))"
  proof -
    let ?x = "set_at (Array n) (n - 1) (y ! (n - 1) / d ! (n - 1))"
    have "length ?x = n"
      using assms by (simp add: length_set_at length_Array max_def)
    moreover have "?x ! (n - 1) = y ! (n - 1) / d ! (n - 1)"
      by (simp add: nth_set_at_same)
    moreover have "?x ! i = (y ! i - b ! i * ?x ! (i + 1)) / d ! i"
      if "n - 1 \<le> i \<and> i + 1 < n" for i
      using that by arith
    ultimately show ?thesis
      unfolding back_relation_def by blast
  qed
  show "back_relation y d b n k (set_at x k ((y ! k - b ! k * x ! (k + 1)) / d ! k))"
    if "k < n - 1" "back_relation y d b n (Suc k) x" for k x
  proof -
    let ?x = "set_at x k ((y ! k - b ! k * x ! (k + 1)) / d ! k)"
    from that(2) have lx: "length x = n" and last: "x ! (n - 1) = y ! (n - 1) / d ! (n - 1)"
      and rec: "\<And>i. Suc k \<le> i \<Longrightarrow> i + 1 < n \<Longrightarrow> x ! i = (y ! i - b ! i * x ! (i + 1)) / d ! i"
      by (simp_all add: back_relation_def)
    have old: "?x ! i = x ! i" if "k < i" "i < n" for i
      using that lx by (simp add: nth_set_at_other)
    have new: "?x ! k = (y ! k - b ! k * x ! (k + 1)) / d ! k"
      by (simp add: nth_set_at_same)
    have "?x ! i = (y ! i - b ! i * ?x ! (i + 1)) / d ! i" if "k \<le> i" "i + 1 < n" for i
    proof (cases "i = k")
      case True
      then show ?thesis using new old [of "k + 1"] that(2) by simp
    next
      case False
      with that have ki: "Suc k \<le> i" by simp
      then show ?thesis using rec [OF ki that(2)] old [of i] old [of "i + 1"] that(2) by simp
    qed
    moreover have "?x ! (n - 1) = y ! (n - 1) / d ! (n - 1)"
      using old [of "n - 1"] last that(1) by simp
    moreover have "length ?x = n" using lx that(1) by (simp add: length_set_at)
    ultimately show ?thesis by (simp add: back_relation_def)
  qed
qed

lemma tridiagonal_row_sum:
  assumes tri: "tridiagonal n h" and i: "i < n"
  shows "(\<Sum>j<n. h ! i ! j * x ! j) =
           (if 0 < i then h ! i ! (i - 1) * x ! (i - 1) else 0) + h ! i ! i * x ! i +
           (if i + 1 < n then h ! i ! (i + 1) * x ! (i + 1) else 0)"
proof -
  let ?f = "\<lambda>j. h ! i ! j * x ! j"
  let ?S = "{j. j < n \<and> (j = i \<or> Suc j = i \<or> j = Suc i)}"
  have zero: "?f j = 0" if "j \<in> {..<n} - ?S" for j
  proof -
    from that have "j < n" "i \<noteq> j" "Suc i \<noteq> j" "i \<noteq> Suc j" by auto
    with tri i have "h ! i ! j = 0" unfolding tridiagonal_def by blast
    then show ?thesis by simp
  qed
  have "sum ?f ?S = sum ?f {..<n}"
    by (rule sum.mono_neutral_left) (use zero in auto)
  moreover have "sum ?f ?S =
           (if 0 < i then ?f (i - 1) else 0) + ?f i + (if i + 1 < n then ?f (i + 1) else 0)"
  proof -
    have S: "?S = (if 0 < i then {i - 1} else {}) \<union> {i} \<union> (if i + 1 < n then {i + 1} else {})"
      using i by auto
    show ?thesis
      unfolding S by (auto simp: sum.union_disjoint)
  qed
  ultimately show ?thesis by simp
qed

lemma thomas_solves:
  assumes tri: "tridiagonal n h" and n: "0 < n"
    and lu: "lu_relation h n n (a, d, b)"
    and fw: "forward_relation g a n y"
    and bk: "back_relation y d b n 0 x"
    and piv: "\<forall>i<n. d ! i \<noteq> 0"
    and i: "i < n"
  shows "(\<Sum>j<n. h ! i ! j * x ! j) = g ! i"
proof -
  from lu have d0: "d ! 0 = h ! 0 ! 0"
    and lurec: "\<And>k. 0 < k \<Longrightarrow> k < n \<Longrightarrow>
        a ! k = h ! k ! (k - 1) / d ! (k - 1) \<and> d ! k = h ! k ! k - a ! k * b ! (k - 1)"
    and sup: "\<And>k. k + 1 < n \<Longrightarrow> b ! k = h ! k ! (k + 1)"
    by (simp_all add: lu_relation_def)
  from fw have y0: "y ! 0 = g ! 0"
    and yrec: "\<And>k. 0 < k \<Longrightarrow> k < n \<Longrightarrow> y ! k = g ! k - a ! k * y ! (k - 1)"
    by (simp_all add: forward_relation_def)
  from bk have xlast: "x ! (n - 1) = y ! (n - 1) / d ! (n - 1)"
    and xrec: "\<And>k. k + 1 < n \<Longrightarrow> x ! k = (y ! k - b ! k * x ! (k + 1)) / d ! k"
    by (simp_all add: back_relation_def)
  text \<open>Row \<open>k\<close> of the upper factor: \<open>d[k] x[k] + b[k] x[k+1] = y[k]\<close>.\<close>
  have upper: "d ! k * x ! k + (if k + 1 < n then b ! k * x ! (k + 1) else 0) = y ! k"
    if "k < n" for k
  proof (cases "k + 1 < n")
    case True
    have "d ! k \<noteq> 0" using piv that by simp
    then show ?thesis using xrec [OF True] True by simp
  next
    case False
    with that have k: "k = n - 1" by simp
    have "d ! (n - 1) \<noteq> 0" using piv n by simp
    then show ?thesis using xlast False k by simp
  qed
  have diag: "h ! i ! i * x ! i + (if i + 1 < n then h ! i ! (i + 1) * x ! (i + 1) else 0) =
      y ! i + (if 0 < i then a ! i * b ! (i - 1) * x ! i else 0)"
  proof (cases "0 < i")
    case True
    have "h ! i ! i = d ! i + a ! i * b ! (i - 1)"
      using lurec [OF True i] by simp
    moreover have "(if i + 1 < n then h ! i ! (i + 1) * x ! (i + 1) else 0) =
        (if i + 1 < n then b ! i * x ! (i + 1) else 0)"
      using sup by simp
    ultimately show ?thesis
      using upper [OF i] True by (simp add: algebra_simps)
  next
    case False
    then have "i = 0" by simp
    moreover have "(if i + 1 < n then h ! i ! (i + 1) * x ! (i + 1) else 0) =
        (if i + 1 < n then b ! i * x ! (i + 1) else 0)"
      using sup by simp
    ultimately show ?thesis
      using upper [OF i] d0 by simp
  qed
  have sub: "(if 0 < i then h ! i ! (i - 1) * x ! (i - 1) + a ! i * b ! (i - 1) * x ! i else 0) =
      (if 0 < i then a ! i * y ! (i - 1) else 0)"
  proof (cases "0 < i")
    case True
    then have im: "i - 1 < n" "i - 1 + 1 < n" "i - 1 + 1 = i" using i by simp_all
    have dm: "d ! (i - 1) \<noteq> 0" using piv im(1) by simp
    have e1: "h ! i ! (i - 1) = a ! i * d ! (i - 1)"
      using lurec [OF True i] dm by simp
    have e2: "d ! (i - 1) * x ! (i - 1) + b ! (i - 1) * x ! i = y ! (i - 1)"
      using upper [OF im(1)] im(2,3) by simp
    have "h ! i ! (i - 1) * x ! (i - 1) + a ! i * b ! (i - 1) * x ! i =
        a ! i * (d ! (i - 1) * x ! (i - 1) + b ! (i - 1) * x ! i)"
      unfolding e1 by (simp add: algebra_simps)
    also have "\<dots> = a ! i * y ! (i - 1)"
      unfolding e2 ..
    finally show ?thesis using True by simp
  next
    case False
    then show ?thesis by simp
  qed
  have "(\<Sum>j<n. h ! i ! j * x ! j) =
      (if 0 < i then h ! i ! (i - 1) * x ! (i - 1) else 0) +
      (h ! i ! i * x ! i + (if i + 1 < n then h ! i ! (i + 1) * x ! (i + 1) else 0))"
    using tridiagonal_row_sum [OF tri i, of x] by simp
  also have "\<dots> = (if 0 < i then h ! i ! (i - 1) * x ! (i - 1) + a ! i * b ! (i - 1) * x ! i else 0) + y ! i"
    using diag by simp
  also have "\<dots> = (if 0 < i then a ! i * y ! (i - 1) else 0) + y ! i"
    using sub by simp
  also have "\<dots> = g ! i"
  proof (cases "0 < i")
    case True
    then show ?thesis using yrec [OF True i] by simp
  next
    case False
    then show ?thesis using y0 by simp
  qed
  finally show ?thesis .
qed

section \<open>The Newton step of several days\<close>

lemma newton_system_error:
  "fst (newton_system p) = Inl e \<longleftrightarrow> fst (hessian (days p) (computeSigma2 p)) = Inl e"
proof (cases "hessian (days p) (computeSigma2 p)")
  case (Pair res ds1)
  show ?thesis
  proof (cases res)
    case (Inl e')
    with Pair show ?thesis by (simp add: newton_system_def)
  next
    case (Inr h)
    with Pair have hs: "hessian (days p) (computeSigma2 p) = (Inr h, ds1)" by simp
    from gradient_after_hessian [OF hs, of "map r (days p)"]
    obtain g where "gradient (map r (days p)) ds1 (computeSigma2 p) = (Inr g, ds1)" by blast
    with hs show ?thesis by (simp add: newton_system_def)
  qed
qed

lemma getter_unstable:
  "(\<exists>k<length (days p).
      is_unstable (fst (logLikelihoodSecondDerivative (days p ! k))) \<and>
      (\<forall>j<k. \<not> throws (fst (logLikelihoodSecondDerivative (days p ! j))))) \<longleftrightarrow>
   (\<exists>m. fst (newton_system p) = Inl (UnstableRatingException m))"
proof -
  have "(\<exists>m. fst (newton_system p) = Inl (UnstableRatingException m)) \<longleftrightarrow>
      is_unstable (fst (hessian (days p) (computeSigma2 p)))"
    by (simp add: newton_system_error is_unstable_iff)
  then show ?thesis
    by (simp add: hessian_unstable second_derivative_def)
qed

lemma newton_solution_not_unstable: "\<not> is_unstable (newton_solution h g n)"
  by (cases "h = []")
     (auto simp: newton_solution_def luDecompositionTridiagonal_def Let_def is_unstable_Inl
       split: prod.splits)

lemma newton_system_days:
  "length (snd (newton_system p)) = length (days p) \<and>
   (\<forall>i<length (days p). snd (newton_system p) ! i = days p ! i \<or>
                          snd (newton_system p) ! i = touched (days p ! i))"
proof -
  let ?s = "computeSigma2 p"
  obtain res ds1 where h: "hessian (days p) ?s = (res, ds1)"
    by (cases "hessian (days p) ?s")
  have "ds1 = snd (hessian_rows (days p) ?s [0..<length (days p)]
                    (replicate (length (days p)) (replicate (length (days p)) 0)))"
    using h by (simp add: hessian_def Let_def)
  then have d1: "length ds1 = length (days p)"
    "\<And>i. i < length (days p) \<Longrightarrow> ds1 ! i = days p ! i \<or> ds1 ! i = touched (days p ! i)"
    using hessian_rows_days by simp_all
  show ?thesis
  proof (cases res)
    case (Inl e)
    with h d1 show ?thesis by (simp add: newton_system_def)
  next
    case (Inr hh)
    obtain res2 ds2 where g: "gradient (map r (days p)) ds1 ?s = (res2, ds2)"
      by (cases "gradient (map r (days p)) ds1 ?s")
    have "ds2 = snd (gradient_loop (map r (days p)) ds1 ?s [0..<length ds1] [])"
      using g by (simp add: gradient_def)
    then have d2: "length ds2 = length ds1"
      "\<And>i. i < length ds1 \<Longrightarrow> ds2 ! i = ds1 ! i \<or> ds2 ! i = touched (ds1 ! i)"
      using gradient_loop_days by simp_all
    have both: "ds2 ! i = days p ! i \<or> ds2 ! i = touched (days p ! i)" if "i < length (days p)" for i
      using d1(2) [OF that] d2(2) [of i] that d1(1) by (metis touched_touched)
    have "snd (newton_system p) = ds2"
      using h g Inr by (simp add: newton_system_def split: sum.splits)
    with d1(1) d2(1) both show ?thesis by simp
  qed
qed

lemma newton_system_ratings: "map r (snd (newton_system p)) = map r (days p)"
  using newton_system_days [of p]
  by (intro map_invariant_under_touched) simp_all

lemma length_newRatings: "length (newRatings rs x) = length rs"
  by (simp add: newRatings_def)

lemma nth_newRatings: "i < length rs \<Longrightarrow> newRatings rs x ! i = rs ! i - x ! i"
  by (simp add: newRatings_def)

lemma ratings_commitRatings:
  assumes "length newR = length ds"
  shows "map r (commitRatings ds newR) = newR"
  by (rule nth_equalityI) (use assms in \<open>simp_all add: commitRatings_def\<close>)

lemma list_ex_nth: "list_ex P xs \<longleftrightarrow> (\<exists>i<length xs. P (xs ! i))"
  by (simp add: list_ex_iff Bex_def in_set_conv_nth) blast

lemma newton_system_shape:
  assumes sys: "newton_system p = (Inr (h, g), ds)"
  shows "length h = length (days p) \<and> length g = length (days p) \<and>
         length ds = length (days p) \<and>
         (\<forall>i<length (days p). length (h ! i) = length (days p)) \<and>
         tridiagonal (length (days p)) h"
proof -
  let ?n = "length (days p)"
  from newton_system_success [OF sys]
  have hs: "hessian (days p) (computeSigma2 p) = (Inr h, ds)"
    and gs: "gradient (map r (days p)) ds (computeSigma2 p) = (Inr g, ds)"
    and ds: "ds = map touched (days p)"
    by blast+
  from hessian_success [OF hs]
  have lh: "length h = ?n"
    and hrow: "\<And>i. i < ?n \<Longrightarrow> \<exists>d2. h ! i = hessian_row ?n (computeSigma2 p) i d2"
    by blast+
  from gradient_success [OF gs] have lg: "length g = ?n"
    using ds by simp
  have rows: "length (h ! i) = ?n" if "i < ?n" for i
    using hrow [OF that] by (auto simp: length_hessian_row)
  have "h ! i ! j = 0" if "i < ?n" "j < ?n" "i \<noteq> j" "Suc i \<noteq> j" "i \<noteq> Suc j" for i j
  proof -
    from hrow [OF that(1)] obtain d2 where "h ! i = hessian_row ?n (computeSigma2 p) i d2" by blast
    then show ?thesis using that by (simp add: nth_hessian_row)
  qed
  then have "tridiagonal ?n h"
    unfolding tridiagonal_def by blast
  with lh lg ds rows show ?thesis by simp
qed

text \<open>
  Claim C2. For a trajectory with \<open>n > 1\<close> days, given the assembled Hessian \<open>H\<close>
  (with super-diagonal \<open>b\<close>) and gradient \<open>g\<close>, the Newton step computes \<open>x\<close> by
  the recurrences \<open>d[0] = H[0][0]\<close>, \<open>a[i] = H[i][i-1]/d[i-1]\<close>,
  \<open>d[i] = H[i][i] - a[i]*b[i-1]\<close>, the forward substitution \<open>y[0] = g[0]\<close>,
  \<open>y[i] = g[i] - a[i]*y[i-1]\<close>, and the back substitution
  \<open>x[n-1] = y[n-1]/d[n-1]\<close>, \<open>x[i] = (y[i] - b[i]*x[i+1])/d[i]\<close>; the new ratings are
  \<open>newR[i] = r[i] - x[i]\<close>, committed when none of them exceeds 650; and whenever
  every pivot \<open>d[i]\<close> is nonzero, \<open>H * x = g\<close>.
\<close>

theorem updateByNDimNewton_solves:
  assumes n: "1 < length (days p)"
    and sys: "newton_system p = (Inr (h, g), ds)"
  shows "\<exists>a d b y x newR.
    luDecompositionTridiagonal h (length (days p)) = Inr (a, d, b) \<and>
    y = forwardSubstitution g a (length (days p)) \<and>
    x = backSubstitution y d b (length (days p)) \<and>
    newR = newRatings (map r (days p)) x \<and>
    d ! 0 = h ! 0 ! 0 \<and>
    (\<forall>i. 0 < i \<and> i < length (days p) \<longrightarrow>
       a ! i = h ! i ! (i - 1) / d ! (i - 1) \<and> d ! i = h ! i ! i - a ! i * b ! (i - 1)) \<and>
    (\<forall>i. i + 1 < length (days p) \<longrightarrow> b ! i = h ! i ! (i + 1)) \<and>
    y ! 0 = g ! 0 \<and>
    (\<forall>i. 0 < i \<and> i < length (days p) \<longrightarrow> y ! i = g ! i - a ! i * y ! (i - 1)) \<and>
    x ! (length (days p) - 1) = y ! (length (days p) - 1) / d ! (length (days p) - 1) \<and>
    (\<forall>i. i + 1 < length (days p) \<longrightarrow> x ! i = (y ! i - b ! i * x ! (i + 1)) / d ! i) \<and>
    length newR = length (days p) \<and>
    (\<forall>i<length (days p). newR ! i = r (days p ! i) - x ! i) \<and>
    (\<not> list_ex (\<lambda>newRi. newRi > 650) newR \<longrightarrow>
       fst (updateByNDimNewton p) = Inr () \<and>
       map r (days (snd (updateByNDimNewton p))) = newR) \<and>
    ((\<forall>i<length (days p). d ! i \<noteq> 0) \<longrightarrow>
       (\<forall>i<length (days p). (\<Sum>j<length (days p). h ! i ! j * x ! j) = g ! i))"
proof -
  let ?n = "length (days p)"
  from newton_system_shape [OF sys]
  have lh: "length h = ?n" and lds: "length ds = ?n"
    and rows: "\<And>i. i < ?n \<Longrightarrow> length (h ! i) = ?n"
    and tri: "tridiagonal ?n h"
    by blast+
  have pos: "0 < ?n" using n by linarith
  have "0 < length h" using lh pos by simp
  then have "h \<noteq> []" by blast
  moreover have "1 < ?n \<longrightarrow> 1 < length (h ! 0)" using rows [OF pos] by simp
  ultimately obtain a d b where lu: "luDecompositionTridiagonal h ?n = Inr (a, d, b)"
    and lurel: "lu_relation h ?n ?n (a, d, b)"
    using luDecompositionTridiagonal_relation [OF _ pos] by blast
  let ?y = "forwardSubstitution g a ?n"
  let ?x = "backSubstitution ?y d b ?n"
  let ?newR = "newRatings (map r (days p)) ?x"
  have fw: "forward_relation g a ?n ?y"
    by (rule forwardSubstitution_relation [OF pos])
  have bk: "back_relation ?y d b ?n 0 ?x"
    by (rule backSubstitution_relation [OF pos])
  have sol: "newton_solution h g ?n = Inr ?x"
    using lu by (simp add: newton_solution_def)
  have lnew: "length ?newR = ?n"
    by (simp add: length_newRatings)
  have new: "\<forall>i<?n. ?newR ! i = r (days p ! i) - ?x ! i"
    by (simp add: nth_newRatings)
  have commit: "\<not> list_ex (\<lambda>newRi. newRi > 650) ?newR \<longrightarrow>
       fst (updateByNDimNewton p) = Inr () \<and>
       map r (days (snd (updateByNDimNewton p))) = ?newR"
  proof
    assume stable: "\<not> list_ex (\<lambda>newRi. newRi > 650) ?newR"
    have "updateByNDimNewton p = (Inr (), p\<lparr>days := commitRatings ds ?newR\<rparr>)"
      using stable sys sol by (simp add: updateByNDimNewton_eq)
    moreover have "map r (commitRatings ds ?newR) = ?newR"
      by (rule ratings_commitRatings) (simp add: lnew lds)
    ultimately show "fst (updateByNDimNewton p) = Inr () \<and>
       map r (days (snd (updateByNDimNewton p))) = ?newR"
      by simp
  qed
  have solves: "(\<forall>i<?n. d ! i \<noteq> 0) \<longrightarrow> (\<forall>i<?n. (\<Sum>j<?n. h ! i ! j * ?x ! j) = g ! i)"
  proof (intro impI allI)
    fix i assume "\<forall>i<?n. d ! i \<noteq> 0" "i < ?n"
    then show "(\<Sum>j<?n. h ! i ! j * ?x ! j) = g ! i"
      by (rule thomas_solves [OF tri pos lurel fw bk])
  qed
  from lurel have l1: "d ! 0 = h ! 0 ! 0"
    and l2: "\<forall>i. 0 < i \<and> i < ?n \<longrightarrow>
       a ! i = h ! i ! (i - 1) / d ! (i - 1) \<and> d ! i = h ! i ! i - a ! i * b ! (i - 1)"
    and l3: "\<forall>i. i + 1 < ?n \<longrightarrow> b ! i = h ! i ! (i + 1)"
    by (simp_all add: lu_relation_def)
  from fw have f1: "?y ! 0 = g ! 0"
    and f2: "\<forall>i. 0 < i \<and> i < ?n \<longrightarrow> ?y ! i = g ! i - a ! i * ?y ! (i - 1)"
    by (simp_all add: forward_relation_def)
  from bk have b1: "?x ! (?n - 1) = ?y ! (?n - 1) / d ! (?n - 1)"
    and b2: "\<forall>i. i + 1 < ?n \<longrightarrow> ?x ! i = (?y ! i - b ! i * ?x ! (i + 1)) / d ! i"
    by (simp_all add: back_relation_def)
  show ?thesis
    by (rule exI [of _ a], rule exI [of _ d], rule exI [of _ b],
        rule exI [of _ ?y], rule exI [of _ ?x], rule exI [of _ ?newR])
       (intro conjI refl lu l1 l2 l3 f1 f2 b1 b2 lnew new commit solves)
qed

text \<open>
  Claim C3. For a trajectory with \<open>n > 1\<close> days, the Newton step throws
  UnstableRatingException if and only if either the first getter
  \<open>logLikelihoodSecondDerivative\<close> that throws while the Hessian is assembled throws
  it (an opponent's adjusted gamma is zero or infinite), or the step computes an update
  of which some component satisfies \<open>newR[i] > 650\<close>; when it throws, the rating
  \<open>r\<close> of every day is what it was before the call; when it does not throw, the
  rating of every day is overwritten with \<open>newR[i] = r[i] - x[i]\<close>.
\<close>

theorem updateByNDimNewton_stability:
  assumes n: "1 < length (days p)"
  shows "(is_unstable (fst (updateByNDimNewton p)) \<longleftrightarrow>
           (\<exists>k<length (days p).
              is_unstable (fst (logLikelihoodSecondDerivative (days p ! k))) \<and>
              (\<forall>j<k. \<not> throws (fst (logLikelihoodSecondDerivative (days p ! j))))) \<or>
           (\<exists>h g ds x. newton_system p = (Inr (h, g), ds) \<and>
              newton_solution h g (length (days p)) = Inr x \<and>
              (\<exists>i<length (days p). newRatings (map r (days p)) x ! i > 650))) \<and>
         (throws (fst (updateByNDimNewton p)) \<longrightarrow>
            map r (days (snd (updateByNDimNewton p))) = map r (days p)) \<and>
         (\<not> throws (fst (updateByNDimNewton p)) \<longrightarrow>
            (\<exists>h g ds x. newton_system p = (Inr (h, g), ds) \<and>
               newton_solution h g (length (days p)) = Inr x \<and>
               map r (days (snd (updateByNDimNewton p))) = newRatings (map r (days p)) x \<and>
               (\<forall>i<length (days p).
                  r (days (snd (updateByNDimNewton p)) ! i) = r (days p ! i) - x ! i \<and>
                  \<not> newRatings (map r (days p)) x ! i > 650)))"
proof (cases "newton_system p")
  case (Pair res ds)
  let ?n = "length (days p)"
  let ?A = "\<exists>k<?n. is_unstable (fst (logLikelihoodSecondDerivative (days p ! k))) \<and>
              (\<forall>j<k. \<not> throws (fst (logLikelihoodSecondDerivative (days p ! j))))"
  let ?B = "\<exists>h g ds x. newton_system p = (Inr (h, g), ds) \<and>
              newton_solution h g ?n = Inr x \<and>
              (\<exists>i<?n. newRatings (map r (days p)) x ! i > 650)"
  let ?C = "\<exists>h g ds x. newton_system p = (Inr (h, g), ds) \<and>
               newton_solution h g ?n = Inr x \<and>
               map r (days (snd (updateByNDimNewton p))) = newRatings (map r (days p)) x \<and>
               (\<forall>i<?n. r (days (snd (updateByNDimNewton p)) ! i) = r (days p ! i) - x ! i \<and>
                  \<not> newRatings (map r (days p)) x ! i > 650)"
  have rds: "map r ds = map r (days p)" and lds: "length ds = ?n"
    using newton_system_ratings [of p] newton_system_days [of p] Pair by simp_all
  have A: "?A \<longleftrightarrow> (\<exists>m. res = Inl (UnstableRatingException m))"
    using getter_unstable [of p] Pair by simp
  show ?thesis
  proof (cases res)
    case (Inl e)
    have res: "updateByNDimNewton p = (Inl e, p\<lparr>days := ds\<rparr>)"
      using Pair Inl by (simp add: updateByNDimNewton_eq)
    have notB: "\<not> ?B" using Pair Inl by simp
    have "is_unstable (fst (updateByNDimNewton p)) \<longleftrightarrow> ?A"
      using A Inl by (simp add: res is_unstable_Inl)
    then have c1: "is_unstable (fst (updateByNDimNewton p)) \<longleftrightarrow> ?A \<or> ?B"
      using notB by blast
    have c2: "throws (fst (updateByNDimNewton p)) \<longrightarrow>
        map r (days (snd (updateByNDimNewton p))) = map r (days p)"
      using rds by (simp add: res)
    have c3: "\<not> throws (fst (updateByNDimNewton p)) \<longrightarrow> ?C"
      by (simp add: res)
    show ?thesis
      by (intro conjI c1 c2 c3)
  next
    case (Inr hg)
    obtain h g where hg: "hg = (h, g)" by (cases hg)
    have sys: "newton_system p = (Inr (h, g), ds)"
      using Pair Inr hg by simp
    have notA: "\<not> ?A" using A Inr by simp
    show ?thesis
    proof (cases "newton_solution h g ?n")
      case (Inl e)
      have "\<not> is_unstable (Inl e :: error + real list)"
        using newton_solution_not_unstable [of h g ?n] Inl by simp
      then have stable: "\<not> is_unstable (Inl e :: error + unit)"
        by (simp add: is_unstable_Inl)
      have res: "updateByNDimNewton p = (Inl e, p\<lparr>days := ds\<rparr>)"
        using sys Inl by (simp add: updateByNDimNewton_eq)
      have notB: "\<not> ?B" using sys Inl by simp
      have c1: "is_unstable (fst (updateByNDimNewton p)) \<longleftrightarrow> ?A \<or> ?B"
        using notA notB stable by (simp only: res fst_conv simp_thms)
      have c2: "throws (fst (updateByNDimNewton p)) \<longrightarrow>
          map r (days (snd (updateByNDimNewton p))) = map r (days p)"
        using rds by (simp add: res)
      have c3: "\<not> throws (fst (updateByNDimNewton p)) \<longrightarrow> ?C"
        by (simp add: res)
      show ?thesis
        by (intro conjI c1 c2 c3)
    next
      case (Inr x)
      let ?newR = "newRatings (map r (days p)) x"
      have ex: "list_ex (\<lambda>newRi. newRi > 650) ?newR \<longleftrightarrow> (\<exists>i<?n. ?newR ! i > 650)"
        by (simp add: list_ex_nth length_newRatings)
      show ?thesis
      proof (cases "list_ex (\<lambda>newRi. newRi > 650) ?newR")
        case True
        then have res: "updateByNDimNewton p =
            (Inl (UnstableRatingException ''Unstable r''), p\<lparr>days := ds\<rparr>)"
          using sys Inr by (simp add: updateByNDimNewton_eq)
        have B: "?B"
          using True ex sys Inr by blast
        have "is_unstable (fst (updateByNDimNewton p))"
          by (simp add: res)
        then have c1: "is_unstable (fst (updateByNDimNewton p)) \<longleftrightarrow> ?A \<or> ?B"
          using B by blast
        have c2: "throws (fst (updateByNDimNewton p)) \<longrightarrow>
            map r (days (snd (updateByNDimNewton p))) = map r (days p)"
          using rds by (simp add: res)
        have c3: "\<not> throws (fst (updateByNDimNewton p)) \<longrightarrow> ?C"
          by (simp add: res)
        show ?thesis
          by (intro conjI c1 c2 c3)
      next
        case False
        then have res: "updateByNDimNewton p = (Inr (), p\<lparr>days := commitRatings ds ?newR\<rparr>)"
          using sys Inr by (simp add: updateByNDimNewton_eq)
        have committed: "map r (commitRatings ds ?newR) = ?newR"
          by (rule ratings_commitRatings) (simp add: length_newRatings lds)
        have each: "r (commitRatings ds ?newR ! i) = r (days p ! i) - x ! i" if "i < ?n" for i
        proof -
          have "r (commitRatings ds ?newR ! i) = map r (commitRatings ds ?newR) ! i"
            using that lds by (simp add: commitRatings_def)
          also have "\<dots> = ?newR ! i" by (simp only: committed)
          also have "\<dots> = r (days p ! i) - x ! i" using that by (simp add: nth_newRatings)
          finally show ?thesis .
        qed
        have stable: "\<not> ?newR ! i > 650" if "i < ?n" for i
          using False ex that by blast
        have notB: "\<not> ?B"
          using sys Inr stable by auto
        have some: "?C"
        proof (intro exI conjI allI impI)
          show "newton_system p = (Inr (h, g), ds)" by (rule sys)
          show "newton_solution h g ?n = Inr x" by (rule Inr)
          show "map r (days (snd (updateByNDimNewton p))) = ?newR"
            using committed by (simp add: res)
          show "r (days (snd (updateByNDimNewton p)) ! i) = r (days p ! i) - x ! i" if "i < ?n" for i
            using each [OF that] by (simp add: res)
          show "\<not> ?newR ! i > 650" if "i < ?n" for i
            using stable [OF that] .
        qed
        have "\<not> is_unstable (fst (updateByNDimNewton p))"
          by (simp add: res)
        then have c1: "is_unstable (fst (updateByNDimNewton p)) \<longleftrightarrow> ?A \<or> ?B"
          using notA notB by blast
        have c2: "throws (fst (updateByNDimNewton p)) \<longrightarrow>
            map r (days (snd (updateByNDimNewton p))) = map r (days p)"
          by (simp add: res)
        have c3: "\<not> throws (fst (updateByNDimNewton p)) \<longrightarrow> ?C"
          using some by blast
        show ?thesis
          by (intro conjI c1 c2 c3)
      qed
    qed
  qed
qed

lemma example_idle_day_derivatives:
  "first_derivative ((new_PlayerDay 0 t)\<lparr>r := x\<rparr>) = Inr 0"
  "second_derivative ((new_PlayerDay 0 t)\<lparr>r := x\<rparr>) = Inr 0"
proof -
  let ?pd = "(new_PlayerDay 0 t)\<lparr>r := x\<rparr>"
  have w: "won_terms ?pd = Inr []"
    by (simp add: won_terms_def wonGameTerms_def new_PlayerDay_def Let_def)
  have l: "lost_terms ?pd = Inr []"
    by (simp add: lost_terms_def lostGameTerms_def new_PlayerDay_def Let_def)
  show "first_derivative ?pd = Inr 0"
    using w l by (simp add: first_derivative_eq tally_of_def)
  show "second_derivative ?pd = Inr 0"
    using w l by (simp add: second_derivative_eq curvature_of_def)
qed

lemma example_player_diverged_system:
  "fst (newton_system example_player_diverged) =
     Inr ([[- 1001 / 1000, 1], [1, - 1001 / 1000]], [0, 0])"
proof -
  let ?d0 = "(new_PlayerDay 0 1)\<lparr>r := 700\<rparr>"
  let ?d1 = "(new_PlayerDay 0 2)\<lparr>r := 700\<rparr>"
  have d: "days example_player_diverged = [?d0, ?d1]"
    by (simp add: example_player_diverged_def)
  have s: "computeSigma2 example_player_diverged = [1]"
    by (simp add: computeSigma2_def example_player_diverged_def new_PlayerDay_def)
  have r: "r ?d0 = 700" "r ?d1 = 700"
    by simp_all
  have h: "hessian [?d0, ?d1] [1] =
      (Inr [[- 1001 / 1000, 1], [1, - 1001 / 1000]], [touched ?d0, touched ?d1])"
    by (simp add: hessian_def hessian_rows_Cons example_idle_day_derivatives
        hessian_row_def hessian_prior_def Let_def)
  have g: "gradient [700, 700] [touched ?d0, touched ?d1] [1] =
      (Inr [0, 0], [touched ?d0, touched ?d1])"
    by (simp add: gradient_def gradient_loop_Cons example_idle_day_derivatives
        gradient_prior_def Let_def)
  show ?thesis
    using h g s r by (simp add: newton_system_def d)
qed

lemma example_player_diverged_solution:
  "newton_solution [[- 1001 / 1000, 1], [1, - 1001 / 1000]] [0, 0]
     (length (days example_player_diverged)) = Inr [0, 0]"
proof -
  have "length (days example_player_diverged) = 2"
    by (simp add: example_player_diverged_def)
  moreover have "newton_solution [[- 1001 / 1000, 1], [1, - 1001 / 1000]] [0, 0] 2 = Inr [0, 0]"
    by code_simp
  ultimately show ?thesis by simp
qed


theorem updateByNDimNewton_stability_witness:
  "1 < length (days example_player_diverged) \<and>
   is_unstable (fst (updateByNDimNewton example_player_diverged)) \<and>
   map r (days (snd (updateByNDimNewton example_player_diverged))) = [700, 700]"
proof -
  let ?p = "example_player_diverged"
  let ?H = "[[- 1001 / 1000, 1], [1, - 1001 / 1000 :: real]]"
  have n: "1 < length (days ?p)"
    by (simp add: example_player_diverged_def)
  have sys: "newton_system ?p = (Inr (?H, [0, 0]), snd (newton_system ?p))"
    using example_player_diverged_system by (simp add: prod_eq_iff)
  have rs: "map r (days ?p) = [700, 700]"
    by (simp add: example_player_diverged_def)
  have big: "0 < length (days ?p) \<and> newRatings (map r (days ?p)) [0, 0] ! 0 > 650"
    by (simp add: rs newRatings_def) (simp add: example_player_diverged_def)
  note stability = updateByNDimNewton_stability [OF n]
  have B: "\<exists>h g ds x. newton_system ?p = (Inr (h, g), ds) \<and>
          newton_solution h g (length (days ?p)) = Inr x \<and>
          (\<exists>i<length (days ?p). newRatings (map r (days ?p)) x ! i > 650)"
    using sys example_player_diverged_solution big by blast
  have unstable: "is_unstable (fst (updateByNDimNewton ?p))"
    by (rule iffD2 [OF stability [THEN conjunct1]]) (rule disjI2, rule B)
  then have "throws (fst (updateByNDimNewton ?p))"
    by (cases "fst (updateByNDimNewton ?p)") simp_all
  then have "map r (days (snd (updateByNDimNewton ?p))) = map r (days ?p)"
    by (rule mp [OF stability [THEN conjunct2, THEN conjunct1]])
  with n unstable rs show ?thesis by simp
qed

lemma example_game_overflow_throws:
  "opponentsAdjustedGamma example_game_overflow 0 =
     Inl (UnstableRatingException ''Bad adjusted gamma'')"
proof -
  have "opponentsAdjustedGamma example_game_overflow 0 =
      checked_gamma (elo_of 0 + blackAdvantage example_game_overflow)"
    by (simp add: opponentsAdjustedGamma_def example_game_overflow_def new_Game_def)
  then show ?thesis
    by (simp only: checked_gamma_eq example_game_overflow_powers not_in_range_examples if_False)
qed

lemma example_player_overflow_getter:
  "second_derivative (days example_player_overflow ! 0) =
     Inl (UnstableRatingException ''Bad adjusted gamma'')"
proof -
  let ?pd = "(new_PlayerDay 0 1)\<lparr>isFirstDay := True, wonGames := [example_game_overflow]\<rparr>"
  have "won_terms ?pd = Inl (UnstableRatingException ''Bad adjusted gamma'')"
    by (simp add: won_terms_def wonGameTerms_def new_PlayerDay_def example_game_overflow_throws)
  then have "second_derivative ?pd = Inl (UnstableRatingException ''Bad adjusted gamma'')"
    by (simp add: second_derivative_eq)
  then show ?thesis
    by (simp add: example_player_overflow_def)
qed

theorem updateByNDimNewton_getter_counterexample:
  "1 < length (days example_player_overflow) \<and>
   is_unstable (fst (updateByNDimNewton example_player_overflow)) \<and>
   fst (hessian (days example_player_overflow) (computeSigma2 example_player_overflow)) =
     Inl (UnstableRatingException ''Bad adjusted gamma'') \<and>
   fst (newton_system example_player_overflow) =
     Inl (UnstableRatingException ''Bad adjusted gamma'') \<and>
   map r (days (snd (updateByNDimNewton example_player_overflow))) = [0, 0]"
proof -
  let ?p = "example_player_overflow"
  let ?e = "UnstableRatingException ''Bad adjusted gamma''"
  have n: "1 < length (days ?p)"
    by (simp add: example_player_overflow_def)
  have "\<exists>k<length (days ?p). second_derivative (days ?p ! k) = Inl ?e \<and>
      (\<forall>j<k. \<not> throws (second_derivative (days ?p ! j)))"
    using example_player_overflow_getter
    by (intro exI [of _ 0]) (simp add: example_player_overflow_def)
  then have h: "fst (hessian (days ?p) (computeSigma2 ?p)) = Inl ?e"
    by (simp only: hessian_error)
  then have s: "fst (newton_system ?p) = Inl ?e"
    by (simp only: newton_system_error)
  then obtain ds where sys: "newton_system ?p = (Inl ?e, ds)"
    by (cases "newton_system ?p") simp
  have res: "updateByNDimNewton ?p = (Inl ?e, ?p\<lparr>days := ds\<rparr>)"
    by (simp add: updateByNDimNewton_eq sys)
  have u: "is_unstable (fst (updateByNDimNewton ?p))"
    by (simp add: res)
  have "map r (days (snd (updateByNDimNewton ?p))) = map r (days ?p)"
    using newton_system_ratings [of ?p] by (simp add: res sys)
  also have "\<dots> = [0, 0]"
    by (simp add: example_player_overflow_def new_PlayerDay_def)
  finally have rs: "map r (days (snd (updateByNDimNewton ?p))) = [0, 0]" .
  show ?thesis
    by (intro conjI n u h s rs)
qed

lemma example_player2_cleared:
  "example_player2\<lparr>days := map clearGameTermsCache (days example_player2)\<rparr> = example_player2"
  by (simp add: example_player2_days) (simp add: example_player2_def)

lemma example_player2_length: "length (days example_player2) = 2"
  by (simp add: example_player2_def)

lemma example_player2_solution:
  "newton_solution [[- 1501 / 1000, 1], [1, - 1001 / 1000]] [2, - 2]
     (length (days example_player2)) = Inr [- 2000 / 502501, 1002000 / 502501]"
proof -
  have "newton_solution [[- 1501 / 1000, 1], [1, - 1001 / 1000]] [2, - 2] 2 =
      Inr [- 2000 / 502501, 1002000 / 502501]"
    by code_simp
  then show ?thesis by (simp add: example_player2_length)
qed

lemma example_player2_lu:
  "luDecompositionTridiagonal [[- 1501 / 1000, 1], [1, - 1001 / 1000]]
     (length (days example_player2)) =
     Inr ([0, - 1000 / 1501], [- 1501 / 1000, - 502501 / 1501000], [1, 0])"
proof -
  have "luDecompositionTridiagonal [[- 1501 / 1000, 1], [1, - 1001 / 1000]] 2 =
      Inr ([0, - 1000 / 1501], [- 1501 / 1000, - 502501 / 1501000], [1, 0])"
    by code_simp
  then show ?thesis by (simp add: example_player2_length)
qed

theorem updateByNDimNewton_solves_witness:
  "1 < length (days example_player2) \<and>
   fst (newton_system example_player2) =
     Inr ([[- 1501 / 1000, 1], [1, - 1001 / 1000]], [2, - 2]) \<and>
   newton_solution [[- 1501 / 1000, 1], [1, - 1001 / 1000]] [2, - 2]
     (length (days example_player2)) = Inr [- 2000 / 502501, 1002000 / 502501] \<and>
   fst (updateByNDimNewton example_player2) = Inr () \<and>
   map r (days (snd (updateByNDimNewton example_player2))) = [2000 / 502501, 3002 / 502501] \<and>
   (\<Sum>j<length (days example_player2).
       [[- 1501 / 1000, 1], [1, - 1001 / 1000]] ! 0 ! j * [- 2000 / 502501, 1002000 / 502501] ! j) = (2 :: real) \<and>
   (\<Sum>j<length (days example_player2).
       [[- 1501 / 1000, 1], [1, - 1001 / 1000]] ! 1 ! j * [- 2000 / 502501, 1002000 / 502501] ! j) = (- 2 :: real)"
proof -
  let ?p = "example_player2"
  let ?H = "[[- 1501 / 1000, 1], [1, - 1001 / 1000 :: real]]"
  let ?g = "[2, - 2 :: real]"
  let ?x = "[- 2000 / 502501, 1002000 / 502501 :: real]"
  have n: "1 < length (days ?p)"
    by (simp add: example_player2_def)
  have fsys: "fst (newton_system ?p) = Inr (?H, ?g)"
    using example_player2_system by (simp add: example_player2_cleared)
  then have sys: "newton_system ?p = (Inr (?H, ?g), snd (newton_system ?p))"
    by (simp add: prod_eq_iff)
  have rs: "map r (days ?p) = [0, 2]"
    by (simp add: example_player2_def new_PlayerDay_def)
  from updateByNDimNewton_solves [OF n sys] show ?thesis
  proof (elim exE conjE)
    fix a d b y x newR
    assume lu: "luDecompositionTridiagonal ?H (length (days ?p)) = Inr (a, d, b)"
    and y: "y = forwardSubstitution ?g a (length (days ?p))"
    and x: "x = backSubstitution y d b (length (days ?p))"
    and newR: "newR = newRatings (map r (days ?p)) x"
    and commit: "\<not> list_ex (\<lambda>newRi. newRi > 650) newR \<longrightarrow>
       fst (updateByNDimNewton ?p) = Inr () \<and>
       map r (days (snd (updateByNDimNewton ?p))) = newR"
    and solves: "(\<forall>i<length (days ?p). d ! i \<noteq> 0) \<longrightarrow>
       (\<forall>i<length (days ?p). (\<Sum>j<length (days ?p). ?H ! i ! j * x ! j) = ?g ! i)"
  have d: "d = [- 1501 / 1000, - 502501 / 1501000]"
    using lu example_player2_lu by simp
  note two = example_player2_length
  have "d ! i \<noteq> 0" if "i < length (days ?p)" for i
  proof -
    from that two have "i = 0 \<or> i = 1" by arith
    then show ?thesis by (auto simp: d)
  qed
  with solves have sums: "\<forall>i<length (days ?p). (\<Sum>j<length (days ?p). ?H ! i ! j * x ! j) = ?g ! i"
    by blast
  have "newton_solution ?H ?g (length (days ?p)) = Inr x"
    using lu by (simp add: newton_solution_def x y)
  then have xs: "x = ?x"
    using example_player2_solution by simp
  have new: "newR = [2000 / 502501, 3002 / 502501]"
    by (simp add: newR rs xs newRatings_def)
  then have "\<not> list_ex (\<lambda>newRi. newRi > 650) newR"
    by simp
  with commit have "fst (updateByNDimNewton ?p) = Inr () \<and>
       map r (days (snd (updateByNDimNewton ?p))) = newR"
    by (rule mp)
  then have c4: "fst (updateByNDimNewton ?p) = Inr ()"
    and c5: "map r (days (snd (updateByNDimNewton ?p))) = [2000 / 502501, 3002 / 502501]"
    unfolding new by (rule conjunct1, rule conjunct2)
  have i0: "0 < length (days ?p)" and i1: "1 < length (days ?p)"
    unfolding two by simp_all
  have g0: "?g ! 0 = 2" and g1: "?g ! 1 = - 2"
    by simp_all
  have c6: "(\<Sum>j<length (days ?p). ?H ! 0 ! j * ?x ! j) = 2"
    using sums [rule_format, OF i0] unfolding xs g0 .
  have c7: "(\<Sum>j<length (days ?p). ?H ! 1 ! j * ?x ! j) = - 2"
    using sums [rule_format, OF i1] unfolding xs g1 .
  show ?thesis
    by (intro conjI n fsys example_player2_solution c4 c5 c6 c7)
  qed
qed

lemma example_player2_hessian:
  "hessian [(new_PlayerDay 0 1)\<lparr>isFirstDay := True, uncertainty := 0\<rparr>,
            (new_PlayerDay 0 2)\<lparr>r := 2, uncertainty := 0\<rparr>] [1] =
     (Inr [[- 1501 / 1000, 1], [1, - 1001 / 1000]],
      [touched ((new_PlayerDay 0 1)\<lparr>isFirstDay := True, uncertainty := 0\<rparr>),
       touched ((new_PlayerDay 0 2)\<lparr>r := 2, uncertainty := 0\<rparr>)])"
  by (simp add: hessian_def hessian_rows_Cons example_first_day_derivatives
      example_second_day_derivatives hessian_row_def hessian_prior_def Let_def)

lemma example_player2_gradient:
  "gradient [0, 2]
     [touched ((new_PlayerDay 0 1)\<lparr>isFirstDay := True, uncertainty := 0\<rparr>),
      touched ((new_PlayerDay 0 2)\<lparr>r := 2, uncertainty := 0\<rparr>)] [1] =
     (Inr [2, - 2],
      [touched ((new_PlayerDay 0 1)\<lparr>isFirstDay := True, uncertainty := 0\<rparr>),
       touched ((new_PlayerDay 0 2)\<lparr>r := 2, uncertainty := 0\<rparr>)])"
  by (simp add: gradient_def gradient_loop_Cons example_first_day_derivatives
      example_second_day_derivatives gradient_prior_def Let_def)

theorem newton_system_entries_witness:
  "1 < length (days example_player2) \<and>
   computeSigma2 example_player2 = [1] \<and>
   fst (hessian (map clearGameTermsCache (days example_player2)) (computeSigma2 example_player2)) =
     Inr [[- 1501 / 1000, 1], [1, - 1001 / 1000]] \<and>
   fst (runOneNewtonIteration example_player2) = Inr () \<and>
   map r (days (snd (runOneNewtonIteration example_player2))) = [2000 / 502501, 3002 / 502501]"
proof -
  let ?p = "example_player2"
  let ?d0 = "(new_PlayerDay 0 1)\<lparr>isFirstDay := True, uncertainty := 0\<rparr>"
  let ?d1 = "(new_PlayerDay 0 2)\<lparr>r := 2, uncertainty := 0\<rparr>"
  let ?ds = "[touched ?d0, touched ?d1]"
  let ?H = "[[- 1501 / 1000, 1], [1, - 1001 / 1000 :: real]]"
  let ?g = "[2, - 2 :: real]"
  let ?x = "[- 2000 / 502501, 1002000 / 502501 :: real]"
  let ?newR = "[2000 / 502501, 3002 / 502501 :: real]"
  have n: "1 < length (days ?p)"
    by (simp add: example_player2_def)
  note two = example_player2_length
  have hs: "hessian (map clearGameTermsCache (days ?p)) (computeSigma2 ?p) = (Inr ?H, ?ds)"
    by (simp only: example_player2_days example_player2_sigma2 example_player2_hessian)
  have rs: "map r (days ?p) = [0, 2]"
    by (simp add: example_player2_def new_PlayerDay_def)
  from newton_system_entries [OF n hs] show ?thesis
  proof (elim exE conjE)
    fix g
    assume gs: "gradient (map r (days ?p)) ?ds (computeSigma2 ?p) = (Inr g, ?ds)"
      and step: "runOneNewtonIteration ?p =
        (case luDecompositionTridiagonal ?H (length (days ?p)) of
           Inl e \<Rightarrow> (Inl e, ?p\<lparr>days := ?ds\<rparr>)
         | Inr (a, d, b) \<Rightarrow>
             (let y = forwardSubstitution g a (length (days ?p));
                  x = backSubstitution y d b (length (days ?p));
                  newR = newRatings (map r (days ?p)) x
              in if list_ex (\<lambda>newRi. newRi > 650) newR
                 then (Inl (UnstableRatingException ''Unstable r''), ?p\<lparr>days := ?ds\<rparr>)
                 else (Inr (), ?p\<lparr>days := commitRatings ?ds newR\<rparr>)))"
    have g: "g = ?g"
      using gs example_player2_gradient by (simp add: rs example_player2_sigma2)
    have x: "backSubstitution
        (forwardSubstitution ?g [0, - 1000 / 1501] (length (days ?p)))
        [- 1501 / 1000, - 502501 / 1501000] [1, 0] (length (days ?p)) = ?x"
      using example_player2_solution example_player2_lu by (simp add: newton_solution_def)
    have new: "newRatings [0, 2] ?x = ?newR"
      by (simp add: newRatings_def)
    have res: "runOneNewtonIteration ?p = (Inr (), ?p\<lparr>days := commitRatings ?ds ?newR\<rparr>)"
      unfolding step g example_player2_lu sum.case prod.case Let_def x rs new by simp
    have "map r (commitRatings ?ds ?newR) = ?newR"
      by (rule ratings_commitRatings) simp
    then have c5: "map r (days (snd (runOneNewtonIteration ?p))) = ?newR"
      by (simp add: res)
    have c4: "fst (runOneNewtonIteration ?p) = Inr ()"
      by (simp add: res)
    have c3: "fst (hessian (map clearGameTermsCache (days ?p)) (computeSigma2 ?p)) = Inr ?H"
      by (simp add: hs)
    show ?thesis
      by (intro conjI n example_player2_sigma2 c3 c4 c5)
  qed
qed
section \<open>Properties of the covariance pass\<close>

lemma reverse_step_relation:
  assumes "reverse_relation h n (Suc k) s" and "k + 1 < n"
  shows "reverse_relation h n k (reverse_step h k s)"
proof -
  obtain ap dp bp where s: "s = (ap, dp, bp)" by (cases s) auto
  define ap1 where "ap1 = set_at ap k (h ! k ! (k + 1) / dp ! (k + 1))"
  define dp1 where "dp1 = set_at dp k (h ! k ! k - ap1 ! k * bp ! (k + 1))"
  define bp1 where "bp1 = (if k > 0 then set_at bp k (h ! k ! (k - 1)) else bp)"
  have step: "reverse_step h k s = (ap1, dp1, bp1)"
    by (simp add: reverse_step_def s ap1_def dp1_def bp1_def Let_def)
  from assms(1) have la: "length ap = n" and ld: "length dp = n" and lb: "length bp = n"
    and last: "dp ! (n - 1) = h ! (n - 1) ! (n - 1)"
    and rec: "\<And>i. Suc k \<le> i \<Longrightarrow> i + 1 < n \<Longrightarrow>
        ap ! i = h ! i ! (i + 1) / dp ! (i + 1) \<and> dp ! i = h ! i ! i - ap ! i * bp ! (i + 1)"
    and sub: "\<And>i. Suc k \<le> i \<Longrightarrow> 0 < i \<Longrightarrow> i < n \<Longrightarrow> bp ! i = h ! i ! (i - 1)"
    by (simp_all add: reverse_relation_def s)
  have kn: "k < n" using assms(2) by simp
  have la1: "length ap1 = n" using la kn by (simp add: ap1_def length_set_at)
  have ld1: "length dp1 = n" using ld kn by (simp add: dp1_def length_set_at)
  have lb1: "length bp1 = n" using lb kn by (simp add: bp1_def length_set_at)
  have ap_old: "ap1 ! i = ap ! i" if "k < i" "i < n" for i
    using that la by (simp add: ap1_def nth_set_at_other)
  have dp_old: "dp1 ! i = dp ! i" if "k < i" "i < n" for i
    using that ld by (simp add: dp1_def nth_set_at_other)
  have bp_old: "bp1 ! i = bp ! i" if "k < i" "i < n" for i
    using that lb by (simp add: bp1_def nth_set_at_other)
  have apk: "ap1 ! k = h ! k ! (k + 1) / dp ! (k + 1)" by (simp add: ap1_def nth_set_at_same)
  have dpk: "dp1 ! k = h ! k ! k - ap1 ! k * bp ! (k + 1)" by (simp add: dp1_def nth_set_at_same)
  have bpk: "bp1 ! k = h ! k ! (k - 1)" if "0 < k"
    using that by (simp add: bp1_def nth_set_at_same)
  have last1: "dp1 ! (n - 1) = h ! (n - 1) ! (n - 1)"
    using last dp_old [of "n - 1"] assms(2) by simp
  have rec1: "ap1 ! i = h ! i ! (i + 1) / dp1 ! (i + 1) \<and> dp1 ! i = h ! i ! i - ap1 ! i * bp1 ! (i + 1)"
    if "k \<le> i" "i + 1 < n" for i
  proof (cases "i = k")
    case True
    then show ?thesis
      using apk dpk dp_old [of "k + 1"] bp_old [of "k + 1"] assms(2) by simp
  next
    case False
    with that have ki: "Suc k \<le> i" by simp
    then show ?thesis
      using rec [OF ki that(2)] ap_old [of i] dp_old [of i] dp_old [of "i + 1"]
        bp_old [of "i + 1"] that(2)
      by simp
  qed
  have sub1: "bp1 ! i = h ! i ! (i - 1)" if "k \<le> i" "0 < i" "i < n" for i
  proof (cases "i = k")
    case True
    with that bpk show ?thesis by simp
  next
    case False
    with that have ki: "Suc k \<le> i" by simp
    with sub [OF ki that(2,3)] bp_old [of i] that(3) show ?thesis by simp
  qed
  show ?thesis
    unfolding step reverse_relation_def
    using la1 ld1 lb1 last1 rec1 sub1 by simp
qed

lemma reversePass_relation:
  assumes "0 < n"
  shows "reverse_relation h n 0 (reversePass h n)"
proof -
  define dp0 where "dp0 = set_at (Array n) (n - 1) (h ! (n - 1) ! (n - 1))"
  define bp0 where "bp0 = (if n > 1 then set_at (Array n) (n - 1) (h ! (n - 1) ! (n - 2)) else Array n)"
  have rp: "reversePass h n = fold (reverse_step h) (rev [0..<n - 1]) (Array n, dp0, bp0)"
    by (simp add: reversePass_def dp0_def bp0_def Let_def)
  have init: "reverse_relation h n (n - 1) (Array n, dp0, bp0)"
  proof -
    have l1: "length (Array n) = n" by (rule length_Array)
    have l2: "length dp0 = n"
      using assms by (simp add: dp0_def length_set_at length_Array max_def)
    have l3: "length bp0 = n"
      using assms by (simp add: bp0_def length_set_at length_Array max_def)
    have last: "dp0 ! (n - 1) = h ! (n - 1) ! (n - 1)"
      by (simp add: dp0_def nth_set_at_same)
    have rec: "\<forall>i. n - 1 \<le> i \<and> i + 1 < n \<longrightarrow>
        Array n ! i = h ! i ! (i + 1) / dp0 ! (i + 1) \<and>
        dp0 ! i = h ! i ! i - Array n ! i * bp0 ! (i + 1)"
    proof (intro allI impI)
      fix i assume "n - 1 \<le> i \<and> i + 1 < n"
      then have False by arith
      then show "Array n ! i = h ! i ! (i + 1) / dp0 ! (i + 1) \<and>
        dp0 ! i = h ! i ! i - Array n ! i * bp0 ! (i + 1)" ..
    qed
    have sub: "\<forall>i. n - 1 \<le> i \<and> 0 < i \<and> i < n \<longrightarrow> bp0 ! i = h ! i ! (i - 1)"
    proof (intro allI impI)
      fix i assume "n - 1 \<le> i \<and> 0 < i \<and> i < n"
      then have "i = n - 1" "1 < n" "n - 2 = i - 1" by arith+
      then show "bp0 ! i = h ! i ! (i - 1)" by (simp add: bp0_def nth_set_at_same)
    qed
    show ?thesis
      unfolding reverse_relation_def prod.case
      by (intro conjI l1 l2 l3 last rec sub)
  qed
  have "reverse_relation h n 0 (fold (reverse_step h) (rev [0..<n - 1]) (Array n, dp0, bp0))"
  proof (rule fold_rev_upt_invariant [where P = "reverse_relation h n" and n = "n - 1"])
    show "reverse_relation h n (n - 1) (Array n, dp0, bp0)" by (rule init)
    show "reverse_relation h n k (reverse_step h k s)"
      if "k < n - 1" "reverse_relation h n (Suc k) s" for k s
      using reverse_step_relation [OF that(2)] that(1) by simp
  qed
  then show ?thesis by (simp only: rp)
qed

lemma variances_relation:
  assumes "0 < n"
  shows "variance_relation n d b dp bp (variances n d b dp bp)"
proof -
  let ?f = "\<lambda>i v. set_at v i (dp ! (i + 1) / (b ! i * bp ! (i + 1) - d ! i * dp ! (i + 1)))"
  let ?P = "\<lambda>k v. length v = n \<and>
      (\<forall>i. i < k \<longrightarrow> v ! i = dp ! (i + 1) / (b ! i * bp ! (i + 1) - d ! i * dp ! (i + 1)))"
  have loop: "?P (n - 1) (fold ?f [0..<n - 1] (Array n))"
  proof (rule fold_upt_invariant [where P = ?P])
    show "?P 0 (Array n)" by (simp add: length_Array)
    show "0 \<le> n - 1" by simp
    show "?P (Suc k) (?f k v)" if "0 \<le> k" "k < n - 1" "?P k v" for k v
    proof -
      from that(3) have lv: "length v = n"
        and old: "\<And>i. i < k \<Longrightarrow> v ! i = dp ! (i + 1) / (b ! i * bp ! (i + 1) - d ! i * dp ! (i + 1))"
        by simp_all
      have "length (?f k v) = n" using lv that(2) by (simp add: length_set_at)
      moreover have "?f k v ! i = dp ! (i + 1) / (b ! i * bp ! (i + 1) - d ! i * dp ! (i + 1))"
        if "i < Suc k" for i
      proof (cases "i = k")
        case True
        then show ?thesis by (simp add: nth_set_at_same)
      next
        case False
        with that have ik: "i < k" by simp
        then have "?f k v ! i = v ! i"
          using lv \<open>k < n - 1\<close> by (simp add: nth_set_at_other)
        with old [OF ik] show ?thesis by simp
      qed
      ultimately show ?thesis by blast
    qed
  qed
  define v0 where "v0 = fold ?f [0..<n - 1] (Array n)"
  have v: "variances n d b dp bp = set_at v0 (n - 1) (- 1 / d ! (n - 1))"
    by (simp add: variances_def v0_def Let_def)
  from loop have l0: "length v0 = n"
    and old: "\<And>i. i < n - 1 \<Longrightarrow> v0 ! i = dp ! (i + 1) / (b ! i * bp ! (i + 1) - d ! i * dp ! (i + 1))"
    unfolding v0_def by simp_all
  have "length (set_at v0 (n - 1) (- 1 / d ! (n - 1))) = n"
    using l0 assms by (simp add: length_set_at)
  moreover have "set_at v0 (n - 1) (- 1 / d ! (n - 1)) ! i =
      dp ! (i + 1) / (b ! i * bp ! (i + 1) - d ! i * dp ! (i + 1))" if "i + 1 < n" for i
  proof -
    from that have "i < n - 1" "i \<noteq> n - 1" "i < length v0" using l0 by simp_all
    then show ?thesis using old [of i] by (simp add: nth_set_at_other)
  qed
  moreover have "set_at v0 (n - 1) (- 1 / d ! (n - 1)) ! (n - 1) = - 1 / d ! (n - 1)"
    by (simp add: nth_set_at_same)
  ultimately show ?thesis
    unfolding v variance_relation_def by blast
qed

lemma pivot_step:
  fixes beta d hd c :: real
  assumes "0 < beta" and "d + beta < 0" and "hd + beta + c < 0"
  shows "(hd - (beta / d) * beta) + c < 0"
proof -
  have d: "d < 0" using assms(1,2) by linarith
  have "beta * beta < beta * (- d)"
    using assms(1,2) by (intro mult_strict_left_mono) linarith+
  then have "beta * beta < (- beta) * d" by simp
  then have "- beta < beta * beta / d"
    using d by (simp add: neg_less_divide_eq)
  then have "- ((beta / d) * beta) < beta" by simp
  with assms(3) show ?thesis by linarith
qed

lemma forward_pivot_bound:
  assumes lu: "lu_relation h n n (a, d, b)" and dom: "dominant n h" and i: "i < n"
  shows "d ! i + (if i + 1 < n then h ! i ! (i + 1) else 0) < 0"
  using i
proof (induction i)
  case 0
  have "d ! 0 = h ! 0 ! 0" using lu by (simp add: lu_relation_def)
  moreover have "h ! 0 ! 0 + (if 0 + 1 < n then h ! 0 ! (0 + 1) else 0) < 0"
    using dom 0 unfolding dominant_def by force
  ultimately show ?case by simp
next
  case (Suc i)
  then have i: "i + 1 < n" "i < n" by simp_all
  from Suc.IH i have IH: "d ! i + h ! i ! (i + 1) < 0" by simp
  from dom i have beta: "0 < h ! i ! (i + 1)" "h ! (i + 1) ! i = h ! i ! (i + 1)"
    unfolding dominant_def by blast+
  from lu Suc.prems have rec: "a ! Suc i = h ! Suc i ! i / d ! i"
    "d ! Suc i = h ! Suc i ! Suc i - a ! Suc i * b ! i"
    by (simp_all add: lu_relation_def)
  from lu i have sup: "b ! i = h ! i ! (i + 1)"
    by (simp add: lu_relation_def)
  from dom Suc.prems
  have "h ! Suc i ! Suc i + (if Suc i + 1 < n then h ! Suc i ! (Suc i + 1) else 0) +
      (if 0 < Suc i then h ! Suc i ! (Suc i - 1) else 0) < 0"
    unfolding dominant_def by blast
  then have "h ! Suc i ! Suc i + (if Suc i + 1 < n then h ! Suc i ! (Suc i + 1) else 0) +
      h ! i ! (i + 1) < 0"
    using beta(2) by simp
  then have diag: "h ! Suc i ! Suc i + h ! i ! (i + 1) +
      (if Suc i + 1 < n then h ! Suc i ! (Suc i + 1) else 0) < 0"
    by linarith
  have "d ! Suc i = h ! Suc i ! Suc i - (h ! i ! (i + 1) / d ! i) * h ! i ! (i + 1)"
    using rec sup beta(2) by simp
  then show ?case
    using pivot_step [OF beta(1) IH diag] by simp
qed

end
